theory Spec2Isabelle
  imports Main "HOL-Library.Word" "HOL-Library.AList"
begin

unbundle bit_operations_syntax

chapter \<open>The program\<close>

section \<open>Values, errors and promises\<close>

text \<open>
  A value read out of a parsed message. A JavaScript value that may be \<open>undefined\<close> is a
  \<open>json option\<close>, with \<open>None\<close> for \<open>undefined\<close>. Numbers are the integers (request
  identifiers, status codes, key codes).
\<close>

datatype json =
    JNull
  | JBool bool
  | JNum int
  | JStr string
  | JArr "json list"
  | JObj "(string \<times> json) list"

text \<open>
  \<open>v.name\<close> for a value \<open>v\<close> that is neither \<open>null\<close> nor \<open>undefined\<close>. The names
  read by this program (id, method, params, result, error, message, response, request, url,
  status, headers, data, metadata, sessionId) are defined on no built-in prototype, so the
  property of a primitive or of an array is \<open>undefined\<close>.
\<close>

fun get_prop :: "json \<Rightarrow> string \<Rightarrow> json option" where
  "get_prop (JObj fs) k = map_of fs k"
| "get_prop _ k = None"

text \<open>The truth value JavaScript gives a value in a condition.\<close>

fun truthy :: "json option \<Rightarrow> bool" where
  "truthy None = False"
| "truthy (Some JNull) = False"
| "truthy (Some (JBool b)) = b"
| "truthy (Some (JNum n)) = (n \<noteq> 0)"
| "truthy (Some (JStr s)) = (s \<noteq> [])"
| "truthy (Some (JArr xs)) = True"
| "truthy (Some (JObj fs)) = True"

text \<open>
  The errors of the program. \<open>Error m\<close> is \<open>new Error(m)\<close> for a fixed text \<open>m\<close>;
  \<open>RemoteError v\<close> is \<open>new Error(msg.error.message)\<close> with \<open>v\<close> the value of
  \<open>msg.error.message\<close>; \<open>WebSocketError\<close> is the error of the socket's \<open>onerror\<close>;
  \<open>NavigationTimeout n\<close> and \<open>ReloadTimeout n\<close> carry the timeout their text prints;
  \<open>SyntaxError\<close> is what \<open>JSON.parse\<close> throws and \<open>TypeError\<close> what reading a property
  of \<open>null\<close> or \<open>undefined\<close> throws.
\<close>

datatype error =
    Error string
  | RemoteError "json option"
  | WebSocketError
  | NavigationTimeout int
  | ReloadTimeout int
  | SyntaxError
  | TypeError

datatype pstate = Pending | Fulfilled "json option" | Rejected error

text \<open>
  An object literal \<open>{k1: v1, ...}\<close> whose values may be \<open>undefined\<close>: reading a key
  whose value is \<open>undefined\<close> and reading an absent key both give \<open>undefined\<close>.
\<close>

fun mk_obj :: "(string \<times> json option) list \<Rightarrow> (string \<times> json) list" where
  "mk_obj [] = []"
| "mk_obj ((k, None) # kvs) = mk_obj kvs"
| "mk_obj ((k, Some v) # kvs) = (k, v) # mk_obj kvs"

section \<open>Function objects: listeners and timer callbacks\<close>

text \<open>
  The first argument of \<open>waitForResponse\<close> and \<open>waitForRequest\<close>: a string, a regular
  expression or a predicate. A regular expression is the function \<open>u \<mapsto> re.test(u)\<close> and a
  predicate the truth value of its result, both as functions of the value of \<open>url\<close>.
\<close>

datatype urlOrPredicate =
    Substring string
  | RegExp "json option \<Rightarrow> bool"
  | Predicate "json option \<Rightarrow> bool"

text \<open>
  A function object is named by a handle, its index in the table of the function objects
  created so far; a promise and a timer are named the same way. The listeners are the
  closures this program registers with \<open>on\<close>:
  \<^item> \<open>LoadHandler ev p\<close>, the \<open>handler\<close> of goto, reload and waitForNavigation, for the
    event \<open>ev\<close> and the load promise \<open>p\<close>;
  \<^item> \<open>NetworkHandler Response u t p\<close> and \<open>NetworkHandler Request u t p\<close>, the
    \<open>handler\<close> of waitForResponse and of waitForRequest, with its timer \<open>t\<close> and its
    promise \<open>p\<close> (the two functions differ in the event they listen to, the property of
    the event they read, the fields they return and the text of their timeout error);
  \<^item> \<open>FrameHandler\<close>, the \<open>frameHandler\<close> of the screencast.
\<close>

datatype traffic = Response | Request

datatype listener =
    LoadHandler string nat
  | NetworkHandler traffic urlOrPredicate nat nat
  | FrameHandler

text \<open>
  The callbacks given to \<open>setTimeout\<close>: \<open>NavTimer p e\<close> rejects the timeout promise
  \<open>p\<close> of a navigation wait with \<open>e\<close>; \<open>NetworkTimer k h p\<close>, of waitForResponse
  and waitForRequest, removes the listener \<open>h\<close> and rejects \<open>p\<close>.
\<close>

datatype timer_callback =
    NavTimer nat error
  | NetworkTimer traffic nat nat

text \<open>
  An async function suspended at an \<open>await\<close>:
  \<^item> \<open>AwaitSend sp lp timeout e rp\<close>: goto or reload waiting for the answer \<open>sp\<close> of its
    command, before it arms its timer (\<open>e\<close> is the error of that timer);
  \<^item> \<open>AwaitRace lp tp t rp\<close>: a navigation wait at \<open>await Promise.race([lp, tp])\<close>,
    whose \<open>finally\<close> clears the timer \<open>t\<close>;
  \<^item> \<open>AwaitStop sp rp\<close>: \<open>Screencast.stop\<close> waiting for the answer of its stop command;
  \<^item> \<open>AwaitDone sp rp\<close>: an async function whose last statement awaits \<open>sp\<close>
    (\<open>Screencast.start\<close>, \<open>Keyboard.down\<close>, \<open>Keyboard.up\<close>).
  \<open>rp\<close> is the promise the async function returned.
\<close>

datatype task =
    AwaitSend nat nat int error nat
  | AwaitRace nat nat nat nat
  | AwaitStop nat nat
  | AwaitDone nat nat

section \<open>The state\<close>

record screencast_options =
  format :: string
  quality :: int
  maxWidth :: int
  maxHeight :: int
  everyNthFrame :: int

record screencast =
  frames :: "json list"
  recording :: bool
  frameHandler :: "nat option"
  options :: screencast_options

text \<open>
  The fields of the CDPSession (\<open>ready\<close>, \<open>idc\<close> for its field \<open>id\<close>, \<open>callbacks\<close>,
  \<open>eventListeners\<close>), its socket (\<open>outbox\<close>: the frames written with \<open>ws.send\<close>,
  \<open>terminated\<close>), the calls suspended at \<open>await this.ready\<close> (\<open>queue\<close>), the tables
  of promises, listeners and timers, the suspended async functions, the clock read by
  \<open>Date.now()\<close> and the page's screencast. A Map is an association list in insertion
  order and a Set a list in insertion order; a slot of \<open>callbacks\<close> is the resolve/reject
  pair of one promise, named by that promise.
\<close>

record world =
  ready :: pstate
  idc :: nat
  callbacks :: "(nat \<times> nat) list"
  eventListeners :: "(string \<times> nat list) list"
  outbox :: "json list"
  terminated :: bool
  queue :: "(string \<times> json \<times> nat) list"
  promises :: "pstate list"
  closures :: "listener list"
  timers :: "(timer_callback \<times> int \<times> bool) list"
  tasks :: "task list"
  clock :: int
  sc :: screencast

subsection \<open>Promises\<close>

definition pget :: "world \<Rightarrow> nat \<Rightarrow> pstate" where
  "pget w p = (if p < length (promises w) then promises w ! p else Pending)"

text \<open>A promise settles once: resolving or rejecting a settled promise does nothing.\<close>

definition settle :: "nat \<Rightarrow> pstate \<Rightarrow> world \<Rightarrow> world" where
  "settle p v w =
     (if p < length (promises w) \<and> promises w ! p = Pending
      then w\<lparr>promises := (promises w)[p := v]\<rparr> else w)"

definition resolve :: "nat \<Rightarrow> json option \<Rightarrow> world \<Rightarrow> world" where
  "resolve p v w = settle p (Fulfilled v) w"

definition reject :: "nat \<Rightarrow> error \<Rightarrow> world \<Rightarrow> world" where
  "reject p e w = settle p (Rejected e) w"

definition new_promise :: "pstate \<Rightarrow> world \<Rightarrow> nat \<times> world" where
  "new_promise v w = (length (promises w), w\<lparr>promises := promises w @ [v]\<rparr>)"

subsection \<open>Timers\<close>

text \<open>
  \<open>setTimeout\<close> appends an armed entry to \<open>timers\<close> and its handle is the entry's place;
  the waits write it together with the promise and the listener they create.
  \<open>clearTimeout\<close> disarms the entry.
\<close>

definition clearTimeout :: "nat \<Rightarrow> world \<Rightarrow> world" where
  "clearTimeout t w =
     (if t < length (timers w)
      then w\<lparr>timers := (timers w)[t := (fst (timers w ! t), fst (snd (timers w ! t)), False)]\<rparr>
      else w)"

section \<open>cdp.ts: the CDPSession\<close>

text \<open>The constructor: a connecting socket, no call, no listener.\<close>

definition default_options :: screencast_options where
  "default_options =
     \<lparr>format = ''jpeg'', quality = 80, maxWidth = 1280, maxHeight = 720, everyNthFrame = 1\<rparr>"

definition new_session :: world where
  "new_session =
     \<lparr>ready = Pending, idc = 0, callbacks = [], eventListeners = [], outbox = [],
      terminated = False, queue = [], promises = [], closures = [], timers = [], tasks = [],
      clock = 0,
      sc = \<lparr>frames = [], recording = False, frameHandler = None, options = default_options\<rparr>\<rparr>"

text \<open>
  The body of \<open>send\<close> after \<open>await this.ready\<close>: the next identifier, the slot, the frame.
  A terminated socket discards what is written to it.
\<close>

definition send_body :: "string \<Rightarrow> json \<Rightarrow> nat \<Rightarrow> world \<Rightarrow> world" where
  "send_body method params p w =
     (let i = idc w + 1 in
      w\<lparr>idc := i,
        callbacks := AList.update i p (callbacks w),
        outbox := (if terminated w then outbox w
                   else outbox w @ [JObj [(''id'', JNum (int i)), (''method'', JStr method),
                                          (''params'', params)]])\<rparr>)"

text \<open>
  \<open>send\<close> returns its promise. While the socket is connecting the call waits in the
  queue; when the socket failed, \<open>await this.ready\<close> throws and the promise is rejected.
  On a settled \<open>ready\<close> the \<open>await\<close> goes on in a microtask of the turn in which
  \<open>send\<close> is called: \<open>send\<close> is the call together with that microtask, which is what
  every later turn of the event loop finds. \<open>send_await\<close> and \<open>ready_microtasks\<close>, below,
  are the two apart, for what runs between them in the turn of the call itself.
\<close>

definition send :: "string \<Rightarrow> json \<Rightarrow> world \<Rightarrow> nat \<times> world" where
  "send method params w =
     (let p = length (promises w) in
      case ready w of
        Pending \<Rightarrow>
          (p, w\<lparr>promises := promises w @ [Pending], queue := queue w @ [(method, params, p)]\<rparr>)
      | Rejected e \<Rightarrow> (p, w\<lparr>promises := promises w @ [Rejected e]\<rparr>)
      | Fulfilled v \<Rightarrow> (p, send_body method params p (w\<lparr>promises := promises w @ [Pending]\<rparr>)))"

text \<open>
  \<open>send\<close> up to \<open>await this.ready\<close>: the promise of the async function is made and the
  call waits. Nothing else is done before the \<open>await\<close>, whatever \<open>ready\<close> is.
\<close>

definition send_await :: "string \<Rightarrow> json \<Rightarrow> world \<Rightarrow> nat \<times> world" where
  "send_await method params w =
     (let p = length (promises w) in
      (p, w\<lparr>promises := promises w @ [Pending], queue := queue w @ [(method, params, p)]\<rparr>))"

text \<open>
  The microtasks that follow. When \<open>ready\<close> is fulfilled the waiting calls go on in the
  order they were made, each into the rest of \<open>send\<close>; when it is rejected each \<open>await\<close>
  throws and the promise of the call is rejected with the error; while it is pending they
  wait.
\<close>

definition ready_microtasks :: "world \<Rightarrow> world" where
  "ready_microtasks w =
     (case ready w of
        Pending \<Rightarrow> w
      | Fulfilled v \<Rightarrow>
          fold (\<lambda>(method, params, p). send_body method params p) (queue w) (w\<lparr>queue := []\<rparr>)
      | Rejected e \<Rightarrow> fold (\<lambda>(method, params, p). reject p e) (queue w) (w\<lparr>queue := []\<rparr>))"

text \<open>The socket's \<open>onopen\<close> and \<open>onerror\<close>: they settle \<open>ready\<close> and wake the queue.\<close>

definition ws_open :: "world \<Rightarrow> world" where
  "ws_open w =
     (if ready w = Pending
      then fold (\<lambda>(method, params, p). send_body method params p) (queue w)
             (w\<lparr>ready := Fulfilled None, queue := []\<rparr>)
      else w)"

definition ws_error :: "world \<Rightarrow> world" where
  "ws_error w =
     (if ready w = Pending
      then fold (\<lambda>(method, params, p). reject p WebSocketError) (queue w)
             (w\<lparr>ready := Rejected WebSocketError, queue := []\<rparr>)
      else w)"

definition set_add :: "nat \<Rightarrow> nat list \<Rightarrow> nat list" where
  "set_add h hs = (if h \<in> set hs then hs else hs @ [h])"

definition on :: "string \<Rightarrow> nat \<Rightarrow> world \<Rightarrow> world" where
  "on event h w =
     (case map_of (eventListeners w) event of
        None \<Rightarrow> w\<lparr>eventListeners := AList.update event [h] (eventListeners w)\<rparr>
      | Some hs \<Rightarrow> w\<lparr>eventListeners := AList.update event (set_add h hs) (eventListeners w)\<rparr>)"

definition off :: "string \<Rightarrow> nat \<Rightarrow> world \<Rightarrow> world" where
  "off event h w =
     (case map_of (eventListeners w) event of
        None \<Rightarrow> w
      | Some hs \<Rightarrow> w\<lparr>eventListeners := AList.update event (removeAll h hs) (eventListeners w)\<rparr>)"

definition close :: "world \<Rightarrow> world" where
  "close w =
     (fold (\<lambda>(i, p). reject p (Error ''Connection closed'')) (callbacks w) w)
       \<lparr>callbacks := [], eventListeners := [], terminated := True\<rparr>"

definition listeners_of :: "string \<Rightarrow> world \<Rightarrow> nat list" where
  "listeners_of event w = (case map_of (eventListeners w) event of None \<Rightarrow> [] | Some hs \<Rightarrow> hs)"

section \<open>The listeners and timer callbacks of page.ts and screencast.ts\<close>

fun is_prefix :: "string \<Rightarrow> string \<Rightarrow> bool" where
  "is_prefix [] ys = True"
| "is_prefix (x # xs) [] = False"
| "is_prefix (x # xs) (y # ys) = (x = y \<and> is_prefix xs ys)"

text \<open>\<open>u.includes(s)\<close> on strings.\<close>

fun includes_str :: "string \<Rightarrow> string \<Rightarrow> bool" where
  "includes_str [] s = (s = [])"
| "includes_str (c # cs) s = (is_prefix s (c # cs) \<or> includes_str cs s)"

text \<open>
  The test of the network handlers. With a string, \<open>url.includes\<close> is the string's method
  when \<open>url\<close> is a string and the array's when it is an array; any other \<open>url\<close> has no
  such method and the call throws.
\<close>

fun matches :: "urlOrPredicate \<Rightarrow> json option \<Rightarrow> error + bool" where
  "matches (Substring s) (Some (JStr u)) = Inr (includes_str u s)"
| "matches (Substring s) (Some (JArr xs)) = Inr (JStr s \<in> set xs)"
| "matches (Substring s) _ = Inl TypeError"
| "matches (RegExp f) u = Inr (f u)"
| "matches (Predicate f) u = Inr (f u)"

text \<open>
  \<open>const { ... } = params.name\<close>: reading \<open>name\<close> of \<open>undefined\<close> or \<open>null\<close> throws, and
  so does destructuring \<open>undefined\<close> or \<open>null\<close>.
\<close>

fun destructure :: "json option \<Rightarrow> string \<Rightarrow> error + json" where
  "destructure None name = Inl TypeError"
| "destructure (Some JNull) name = Inl TypeError"
| "destructure (Some v) name =
     (case get_prop v name of
        None \<Rightarrow> Inl TypeError
      | Some JNull \<Rightarrow> Inl TypeError
      | Some r \<Rightarrow> Inr r)"

text \<open>
  What tells the handler of waitForResponse from the handler of waitForRequest: the event,
  the property of \<open>params\<close> that is destructured, the object the promise is resolved with
  (\<open>{ url, status, headers }\<close> and \<open>{ url, method }\<close>) and the timeout error.
\<close>

fun traffic_event :: "traffic \<Rightarrow> string" where
  "traffic_event Response = ''Network.responseReceived''"
| "traffic_event Request = ''Network.requestWillBeSent''"

fun traffic_key :: "traffic \<Rightarrow> string" where
  "traffic_key Response = ''response''"
| "traffic_key Request = ''request''"

fun traffic_result :: "traffic \<Rightarrow> json \<Rightarrow> json" where
  "traffic_result Response r =
     JObj (mk_obj [(''url'', get_prop r ''url''), (''status'', get_prop r ''status''),
                   (''headers'', get_prop r ''headers'')])"
| "traffic_result Request r =
     JObj (mk_obj [(''url'', get_prop r ''url''), (''method'', get_prop r ''method'')])"

fun traffic_timeout :: "traffic \<Rightarrow> error" where
  "traffic_timeout Response = Error ''Timeout waiting for response''"
| "traffic_timeout Request = Error ''Timeout waiting for request''"

text \<open>
  The frame handler is an async function: it never throws into the fan-out. It appends
  the frame and acknowledges it. A frame event carries its image as a base64 string, kept
  here as it came; for an event without one the handler's promise is rejected and nothing
  is appended.
\<close>

definition frame_handler :: "json option \<Rightarrow> world \<Rightarrow> world" where
  "frame_handler params w =
     (if \<not> recording (sc w) then w
      else case params of
        None \<Rightarrow> w
      | Some JNull \<Rightarrow> w
      | Some v \<Rightarrow>
          (case get_prop v ''data'' of
             Some (JStr d) \<Rightarrow>
               (let f = JObj (mk_obj [(''data'', Some (JStr d)),
                                       (''timestamp'', Some (JNum (clock w))),
                                       (''metadata'', get_prop v ''metadata'')]);
                    w1 = w\<lparr>sc := (sc w)\<lparr>frames := frames (sc w) @ [f]\<rparr>\<rparr>
                in snd (send ''Page.screencastFrameAck''
                          (JObj (mk_obj [(''sessionId'', get_prop v ''sessionId'')])) w1))
           | _ \<Rightarrow> w))"

text \<open>
  Calling the listener with handle \<open>h\<close>: the error it throws, if any, and the state it
  leaves.
\<close>

fun invoke :: "nat \<Rightarrow> listener \<Rightarrow> json option \<Rightarrow> world \<Rightarrow> error option \<times> world" where
  "invoke h (LoadHandler ev p) params w = (None, resolve p None (off ev h w))"
| "invoke h (NetworkHandler k u t p) params w =
     (case destructure params (traffic_key k) of
        Inl e \<Rightarrow> (Some e, w)
      | Inr r \<Rightarrow>
          (case matches u (get_prop r ''url'') of
             Inl e \<Rightarrow> (Some e, w)
           | Inr False \<Rightarrow> (None, w)
           | Inr True \<Rightarrow>
               (None,
                resolve p (Some (traffic_result k r))
                  (off (traffic_event k) h (clearTimeout t w)))))"
| "invoke h FrameHandler params w = (None, frame_handler params w)"

fun run_timer :: "timer_callback \<Rightarrow> world \<Rightarrow> world" where
  "run_timer (NavTimer p e) w = reject p e w"
| "run_timer (NetworkTimer k h p) w = reject p (traffic_timeout k) (off (traffic_event k) h w)"

text \<open>An armed timer fires once; a cleared or fired timer does nothing.\<close>

definition fire :: "nat \<Rightarrow> world \<Rightarrow> world" where
  "fire t w =
     (if t < length (timers w) \<and> snd (snd (timers w ! t))
      then run_timer (fst (timers w ! t)) (clearTimeout t w)
      else w)"

subsection \<open>handleMessage\<close>

text \<open>
  \<open>for (const listener of listeners) listener(msg.params)\<close>. A listener that was removed
  before its turn is not called; a listener that throws ends the loop. No listener of this
  program registers a listener, so the Set only shrinks while it is iterated.
\<close>

fun fanout :: "string \<Rightarrow> nat list \<Rightarrow> json option \<Rightarrow> world \<Rightarrow> error option \<times> world" where
  "fanout event [] params w = (None, w)"
| "fanout event (h # hs) params w =
     (if h \<in> set (listeners_of event w) \<and> h < length (closures w)
      then (case invoke h (closures w ! h) params w of
              (Some e, w') \<Rightarrow> (Some e, w')
            | (None, w') \<Rightarrow> fanout event hs params w')
      else fanout event hs params w)"

text \<open>\<open>this.callbacks.get(msg.id)\<close>: only a number that is a key finds a slot.\<close>

fun lookup_callback :: "json \<Rightarrow> world \<Rightarrow> (nat \<times> nat) option" where
  "lookup_callback (JNum n) w =
     (if 0 \<le> n then map_option (\<lambda>p. (nat n, p)) (map_of (callbacks w) (nat n)) else None)"
| "lookup_callback _ w = None"

text \<open>
  \<open>handleMessage\<close> on the result of \<open>JSON.parse(data)\<close>: \<open>None\<close> when the parser throws
  its SyntaxError, the parsed value otherwise. It returns the error it throws, if any, and
  the state. Nothing catches: \<open>ws.onmessage\<close> calls it directly.
\<close>

definition handleMessage :: "json option \<Rightarrow> world \<Rightarrow> error option \<times> world" where
  "handleMessage parsed w =
     (case parsed of
        None \<Rightarrow> (Some SyntaxError, w)
      | Some JNull \<Rightarrow> (Some TypeError, w)
      | Some msg \<Rightarrow>
          (case get_prop msg ''id'' of
             Some i \<Rightarrow>
               (case lookup_callback i w of
                  None \<Rightarrow> (None, w)
                | Some (k, p) \<Rightarrow>
                    (let w' = w\<lparr>callbacks := AList.delete k (callbacks w)\<rparr> in
                     if truthy (get_prop msg ''error'')
                     then (case get_prop msg ''error'' of
                             Some err \<Rightarrow> (None, reject p (RemoteError (get_prop err ''message'')) w')
                           | None \<Rightarrow> (None, w'))
                     else (None, resolve p (get_prop msg ''result'') w')))
           | None \<Rightarrow>
               (case get_prop msg ''method'' of
                  Some (JStr m) \<Rightarrow>
                    (if m \<noteq> [] \<and> map_of (eventListeners w) m \<noteq> None
                     then fanout m (listeners_of m w) (get_prop msg ''params'') w
                     else (None, w))
                | _ \<Rightarrow> (None, w))))"

section \<open>page.ts: the event-race waits\<close>

record NavigateOptions =
  timeout :: "int option"
  waitUntil :: "string option"

text \<open>\<open>const { timeout = 30000, waitUntil = "load" } = options\<close> and the event it names.\<close>

definition timeout_of :: "int option \<Rightarrow> int" where
  "timeout_of t = (case t of None \<Rightarrow> 30000 | Some n \<Rightarrow> n)"

definition eventName :: "NavigateOptions \<Rightarrow> string" where
  "eventName opts =
     (if waitUntil opts = Some ''domcontentloaded''
      then ''Page.domContentEventFired'' else ''Page.loadEventFired'')"

text \<open>
  \<open>loadPromise\<close>: a new promise and a new handler, registered at once. It returns the
  promise and the handler.
\<close>

definition loadPromise :: "string \<Rightarrow> world \<Rightarrow> (nat \<times> nat) \<times> world" where
  "loadPromise ev w =
     (let lp = length (promises w); h = length (closures w);
          w1 = w\<lparr>promises := promises w @ [Pending], closures := closures w @ [LoadHandler ev lp]\<rparr>
      in ((lp, h), on ev h w1))"

text \<open>
  \<open>timeoutPromise\<close> and \<open>await Promise.race([loadPromise, timeoutPromise])\<close> with its
  \<open>finally { clearTimeout(timer) }\<close>: the async function goes on as soon as one of the
  two promises is settled, and stays suspended otherwise.
\<close>

definition race :: "nat \<Rightarrow> nat \<Rightarrow> nat \<Rightarrow> nat \<Rightarrow> world \<Rightarrow> task option \<times> world" where
  "race lp tp t rp w =
     (case pget w lp of
        Fulfilled v \<Rightarrow> (None, resolve rp None (clearTimeout t w))
      | Rejected e \<Rightarrow> (None, reject rp e (clearTimeout t w))
      | Pending \<Rightarrow>
          (case pget w tp of
             Fulfilled v \<Rightarrow> (None, resolve rp None (clearTimeout t w))
           | Rejected e \<Rightarrow> (None, reject rp e (clearTimeout t w))
           | Pending \<Rightarrow> (Some (AwaitRace lp tp t rp), w)))"

definition arm_and_race :: "nat \<Rightarrow> int \<Rightarrow> error \<Rightarrow> nat \<Rightarrow> world \<Rightarrow> task option \<times> world" where
  "arm_and_race lp tmo e rp w =
     (let tp = length (promises w); t = length (timers w);
          w1 = w\<lparr>promises := promises w @ [Pending],
                 timers := timers w @ [(NavTimer tp e, tmo, True)]\<rparr>
      in race lp tp t rp w1)"

definition add_task :: "task option \<Rightarrow> world \<Rightarrow> world" where
  "add_task k w = (case k of None \<Rightarrow> w | Some k' \<Rightarrow> w\<lparr>tasks := tasks w @ [k']\<rparr>)"

text \<open>Each wait returns the promise of its async function.\<close>

definition waitForNavigation :: "NavigateOptions \<Rightarrow> world \<Rightarrow> nat \<times> world" where
  "waitForNavigation opts w =
     (let tmo = timeout_of (timeout opts);
          ((lp, h), w1) = loadPromise (eventName opts) w;
          (rp, w2) = new_promise Pending w1;
          (k, w3) = arm_and_race lp tmo (NavigationTimeout tmo) rp w2
      in (rp, add_task k w3))"

definition goto :: "string \<Rightarrow> NavigateOptions \<Rightarrow> world \<Rightarrow> nat \<times> world" where
  "goto url opts w =
     (let tmo = timeout_of (timeout opts);
          ((lp, h), w1) = loadPromise (eventName opts) w;
          (sp, w2) = send ''Page.navigate'' (JObj [(''url'', JStr url)]) w1;
          (rp, w3) = new_promise Pending w2
      in (rp, add_task (Some (AwaitSend sp lp tmo (NavigationTimeout tmo) rp)) w3))"

definition reload :: "NavigateOptions \<Rightarrow> world \<Rightarrow> nat \<times> world" where
  "reload opts w =
     (let tmo = timeout_of (timeout opts);
          ((lp, h), w1) = loadPromise (eventName opts) w;
          (sp, w2) = send ''Page.reload'' (JObj []) w1;
          (rp, w3) = new_promise Pending w2
      in (rp, add_task (Some (AwaitSend sp lp tmo (ReloadTimeout tmo) rp)) w3))"

text \<open>The network waits: the timer first, then the handler, then its registration.\<close>

definition network_wait ::
  "traffic \<Rightarrow> urlOrPredicate \<Rightarrow> int option \<Rightarrow> world \<Rightarrow> nat \<times> world" where
  "network_wait k u tmo w =
     (let p = length (promises w); t = length (timers w); h = length (closures w);
          w1 = w\<lparr>promises := promises w @ [Pending],
                 timers := timers w @ [(NetworkTimer k h p, timeout_of tmo, True)],
                 closures := closures w @ [NetworkHandler k u t p]\<rparr>
      in (p, on (traffic_event k) h w1))"

definition waitForResponse :: "urlOrPredicate \<Rightarrow> int option \<Rightarrow> world \<Rightarrow> nat \<times> world" where
  "waitForResponse u tmo w = network_wait Response u tmo w"

definition waitForRequest :: "urlOrPredicate \<Rightarrow> int option \<Rightarrow> world \<Rightarrow> nat \<times> world" where
  "waitForRequest u tmo w = network_wait Request u tmo w"

section \<open>screencast.ts\<close>

definition start :: "world \<Rightarrow> nat \<times> world" where
  "start w =
     (if recording (sc w) then new_promise (Rejected (Error ''Screencast already recording'')) w
      else
        (let h = length (closures w);
             w1 = w\<lparr>closures := closures w @ [FrameHandler],
                    sc := (sc w)\<lparr>frames := [], recording := True, frameHandler := Some h\<rparr>\<rparr>;
             os = options (sc w);
             (sp, w2) = send ''Page.startScreencast''
                          (JObj [(''format'', JStr (format os)), (''quality'', JNum (quality os)),
                                 (''maxWidth'', JNum (maxWidth os)),
                                 (''maxHeight'', JNum (maxHeight os)),
                                 (''everyNthFrame'', JNum (everyNthFrame os))])
                          (on ''Page.screencastFrame'' h w1);
             (rp, w3) = new_promise Pending w2
         in (rp, add_task (Some (AwaitDone sp rp)) w3)))"

text \<open>
  \<open>stop\<close> up to its \<open>await\<close>, and the rest of it once the stop command is answered.
\<close>

definition stop :: "world \<Rightarrow> nat \<times> world" where
  "stop w =
     (if \<not> recording (sc w) then new_promise (Rejected (Error ''Screencast not recording'')) w
      else
        (let (sp, w1) = send ''Page.stopScreencast'' (JObj []) w;
             (rp, w2) = new_promise Pending w1
         in (rp, add_task (Some (AwaitStop sp rp)) w2)))"

definition stop_rest :: "nat \<Rightarrow> world \<Rightarrow> world" where
  "stop_rest rp w =
     (let w1 = (case frameHandler (sc w) of
                  None \<Rightarrow> w
                | Some h \<Rightarrow> (off ''Page.screencastFrame'' h w)
                              \<lparr>sc := (sc w)\<lparr>frameHandler := None\<rparr>\<rparr>);
          w2 = w1\<lparr>sc := (sc w1)\<lparr>recording := False\<rparr>\<rparr>
      in resolve rp (Some (JArr (frames (sc w2)))) w2)"

definition isRecording :: "world \<Rightarrow> bool \<times> world" where
  "isRecording w = (recording (sc w), w)"

definition frameCount :: "world \<Rightarrow> nat \<times> world" where
  "frameCount w = (length (frames (sc w)), w)"

section \<open>The event loop\<close>

text \<open>Resuming a suspended async function whose awaited promise is settled.\<close>

fun resume :: "task \<Rightarrow> world \<Rightarrow> task option \<times> world" where
  "resume (AwaitSend sp lp tmo e rp) w =
     (case pget w sp of
        Pending \<Rightarrow> (Some (AwaitSend sp lp tmo e rp), w)
      | Rejected err \<Rightarrow> (None, reject rp err w)
      | Fulfilled v \<Rightarrow> arm_and_race lp tmo e rp w)"
| "resume (AwaitRace lp tp t rp) w = race lp tp t rp w"
| "resume (AwaitStop sp rp) w =
     (case pget w sp of
        Pending \<Rightarrow> (Some (AwaitStop sp rp), w)
      | Rejected err \<Rightarrow> (None, reject rp err w)
      | Fulfilled v \<Rightarrow> (None, stop_rest rp w))"
| "resume (AwaitDone sp rp) w =
     (case pget w sp of
        Pending \<Rightarrow> (Some (AwaitDone sp rp), w)
      | Rejected err \<Rightarrow> (None, reject rp err w)
      | Fulfilled v \<Rightarrow> (None, resolve rp None w))"

fun resume_all :: "task list \<Rightarrow> world \<Rightarrow> task list \<times> world" where
  "resume_all [] w = ([], w)"
| "resume_all (k # ks) w =
     (case resume k w of
        (r, w1) \<Rightarrow>
          (case resume_all ks w1 of
             (rs, w2) \<Rightarrow> ((case r of None \<Rightarrow> rs | Some k' \<Rightarrow> k' # rs), w2)))"

text \<open>After each callback of the event loop, the async functions that can go on do.\<close>

definition drain :: "world \<Rightarrow> world" where
  "drain w = (case resume_all (tasks w) w of (ks, w') \<Rightarrow> w'\<lparr>tasks := ks\<rparr>)"

section \<open>keyboard.ts\<close>

definition KEY_DEFINITIONS :: "(string \<times> int \<times> string \<times> string) list" where
  "KEY_DEFINITIONS =
     [(''Enter'', 13, ''Enter'', ''Enter''),
      (''Tab'', 9, ''Tab'', ''Tab''),
      (''Backspace'', 8, ''Backspace'', ''Backspace''),
      (''Delete'', 46, ''Delete'', ''Delete''),
      (''Escape'', 27, ''Escape'', ''Escape''),
      (''ArrowUp'', 38, ''ArrowUp'', ''ArrowUp''),
      (''ArrowDown'', 40, ''ArrowDown'', ''ArrowDown''),
      (''ArrowLeft'', 37, ''ArrowLeft'', ''ArrowLeft''),
      (''ArrowRight'', 39, ''ArrowRight'', ''ArrowRight''),
      (''Home'', 36, ''Home'', ''Home''),
      (''End'', 35, ''End'', ''End''),
      (''PageUp'', 33, ''PageUp'', ''PageUp''),
      (''PageDown'', 34, ''PageDown'', ''PageDown''),
      (''Space'', 32, '' '', ''Space''),
      (''Control'', 17, ''Control'', ''ControlLeft''),
      (''Shift'', 16, ''Shift'', ''ShiftLeft''),
      (''Alt'', 18, ''Alt'', ''AltLeft''),
      (''Meta'', 91, ''Meta'', ''MetaLeft''),
      (''F1'', 112, ''F1'', ''F1''),
      (''F2'', 113, ''F2'', ''F2''),
      (''F3'', 114, ''F3'', ''F3''),
      (''F4'', 115, ''F4'', ''F4''),
      (''F5'', 116, ''F5'', ''F5''),
      (''F6'', 117, ''F6'', ''F6''),
      (''F7'', 118, ''F7'', ''F7''),
      (''F8'', 119, ''F8'', ''F8''),
      (''F9'', 120, ''F9'', ''F9''),
      (''F10'', 121, ''F10'', ''F10''),
      (''F11'', 122, ''F11'', ''F11''),
      (''F12'', 123, ''F12'', ''F12'')]"

text \<open>\<open>toUpperCase\<close> and \<open>charCodeAt(0)\<close>, for the ASCII keys.\<close>

definition toUpperCase :: "string \<Rightarrow> string" where
  "toUpperCase k =
     map (\<lambda>c. let n = (of_char c :: nat) in if 97 \<le> n \<and> n \<le> 122 then char_of (n - 32) else c) k"

definition charCodeAt0 :: "string \<Rightarrow> json" where
  "charCodeAt0 k = (case k of [] \<Rightarrow> JNull | c # cs \<Rightarrow> JNum (int (of_char c :: nat)))"

text \<open>
  The bitmask is a JavaScript number that \<open>|=\<close> and \<open>&=\<close> read and write as a 32-bit
  integer.
\<close>

record keyboard =
  modifiers :: "32 word"

definition key_event :: "string \<Rightarrow> string \<Rightarrow> 32 word \<Rightarrow> json" where
  "key_event ty key m =
     (let d = map_of KEY_DEFINITIONS key in
      JObj [(''type'', JStr ty),
            (''modifiers'', JNum (sint m)),
            (''key'', JStr (case d of Some (kc, k, c) \<Rightarrow> k | None \<Rightarrow> key)),
            (''code'', JStr (case d of Some (kc, k, c) \<Rightarrow> c | None \<Rightarrow> ''Key'' @ toUpperCase key)),
            (''windowsVirtualKeyCode'',
               (case d of Some (kc, k, c) \<Rightarrow> JNum kc | None \<Rightarrow> charCodeAt0 key))])"

definition down_modifiers :: "string \<Rightarrow> 32 word \<Rightarrow> 32 word" where
  "down_modifiers key m =
     (let m1 = (if key = ''Shift'' then m OR 8 else m);
          m2 = (if key = ''Control'' then m1 OR 4 else m1);
          m3 = (if key = ''Alt'' then m2 OR 2 else m2);
          m4 = (if key = ''Meta'' then m3 OR 1 else m3)
      in m4)"

definition up_modifiers :: "string \<Rightarrow> 32 word \<Rightarrow> 32 word" where
  "up_modifiers key m =
     (let m1 = (if key = ''Shift'' then m AND NOT 8 else m);
          m2 = (if key = ''Control'' then m1 AND NOT 4 else m1);
          m3 = (if key = ''Alt'' then m2 AND NOT 2 else m2);
          m4 = (if key = ''Meta'' then m3 AND NOT 1 else m3)
      in m4)"

text \<open>
  \<open>down\<close> and \<open>up\<close>: the bitmask is updated first, then the key event is sent with the new
  bitmask. They return the promise of the async function.
\<close>

definition down :: "string \<Rightarrow> keyboard \<times> world \<Rightarrow> nat \<times> keyboard \<times> world" where
  "down key kw =
     (let kb = (fst kw)\<lparr>modifiers := down_modifiers key (modifiers (fst kw))\<rparr>;
          (sp, w1) = send ''Input.dispatchKeyEvent'' (key_event ''keyDown'' key (modifiers kb)) (snd kw);
          (rp, w2) = new_promise Pending w1
      in (rp, kb, add_task (Some (AwaitDone sp rp)) w2))"

definition up :: "string \<Rightarrow> keyboard \<times> world \<Rightarrow> nat \<times> keyboard \<times> world" where
  "up key kw =
     (let kb = (fst kw)\<lparr>modifiers := up_modifiers key (modifiers (fst kw))\<rparr>;
          (sp, w1) = send ''Input.dispatchKeyEvent'' (key_event ''keyUp'' key (modifiers kb)) (snd kw);
          (rp, w2) = new_promise Pending w1
      in (rp, kb, add_task (Some (AwaitDone sp rp)) w2))"

section \<open>page.ts: the poll loops\<close>

record WaitForSelectorOptions =
  wfs_timeout :: "int option"
  visible :: "bool option"
  hidden :: "bool option"

text \<open>
  What one turn of the loop of \<open>waitForSelector\<close> reads from outside: \<open>Date.now()\<close> at
  the loop test, the result of \<open>this.$(selector)\<close> (an error, \<open>null\<close> or the node of the
  element) and the result of \<open>element.isVisible()\<close> if it is asked.
\<close>

record probe =
  now :: int
  element :: "error + nat option"
  isVisible :: "error + bool"

text \<open>
  The result of a wait: \<open>None\<close> while the readings given do not let it finish, the value
  returned or the error thrown otherwise; with it, the number of probes made and the number
  of sleeps.
\<close>

type_synonym 'a wait_result = "(error + 'a) option \<times> nat \<times> nat"

fun selector_loop ::
  "string \<Rightarrow> int \<Rightarrow> bool \<Rightarrow> bool \<Rightarrow> int \<Rightarrow> probe list \<Rightarrow> nat \<Rightarrow> nat \<Rightarrow> (nat option) wait_result" where
  "selector_loop selector tmo vis hid start0 [] n k = (None, n, k)"
| "selector_loop selector tmo vis hid start0 (r # rs) n k =
     (if now r - start0 < tmo then
        (case element r of
           Inl e \<Rightarrow> (Some (Inl e), Suc n, k)
         | Inr el \<Rightarrow>
             (if hid then
                (case el of
                   None \<Rightarrow> (Some (Inr None), Suc n, k)
                 | Some node \<Rightarrow>
                     (case isVisible r of
                        Inl e \<Rightarrow> (Some (Inl e), Suc n, k)
                      | Inr v \<Rightarrow>
                          if \<not> v then (Some (Inr (Some node)), Suc n, k)
                          else selector_loop selector tmo vis hid start0 rs (Suc n) (Suc k)))
              else
                (case el of
                   Some node \<Rightarrow>
                     (if \<not> vis then (Some (Inr (Some node)), Suc n, k)
                      else
                        (case isVisible r of
                           Inl e \<Rightarrow> (Some (Inl e), Suc n, k)
                         | Inr v \<Rightarrow>
                             if v then (Some (Inr (Some node)), Suc n, k)
                             else selector_loop selector tmo vis hid start0 rs (Suc n) (Suc k)))
                 | None \<Rightarrow> selector_loop selector tmo vis hid start0 rs (Suc n) (Suc k))))
      else (Some (Inl (Error (''Timeout waiting for selector: '' @ selector))), n, k))"

definition flag :: "bool option \<Rightarrow> bool" where
  "flag b = (case b of None \<Rightarrow> False | Some v \<Rightarrow> v)"

text \<open>\<open>start0\<close> is the first \<open>Date.now()\<close>, read before the loop.\<close>

definition waitForSelector ::
  "string \<Rightarrow> WaitForSelectorOptions \<Rightarrow> int \<Rightarrow> probe list \<Rightarrow> (nat option) wait_result" where
  "waitForSelector selector opts start0 rs =
     selector_loop selector (timeout_of (wfs_timeout opts)) (flag (visible opts))
       (flag (hidden opts)) start0 rs 0 0"

text \<open>
  One turn of \<open>waitForFunction\<close>: \<open>Date.now()\<close> at the loop test and the value of
  \<open>result.result.value\<close>, or the error of the evaluation.
\<close>

record evaluation =
  at :: int
  result_value :: "error + json option"

fun function_loop :: "int \<Rightarrow> int \<Rightarrow> evaluation list \<Rightarrow> nat \<Rightarrow> nat \<Rightarrow> (json option) wait_result" where
  "function_loop tmo start0 [] n k = (None, n, k)"
| "function_loop tmo start0 (r # rs) n k =
     (if at r - start0 < tmo then
        (case result_value r of
           Inl e \<Rightarrow> (Some (Inl e), Suc n, k)
         | Inr v \<Rightarrow>
             if truthy v then (Some (Inr v), Suc n, k)
             else function_loop tmo start0 rs (Suc n) (Suc k))
      else (Some (Inl (Error ''Timeout waiting for function'')), n, k))"

definition waitForFunction ::
  "int option \<Rightarrow> int option \<Rightarrow> int \<Rightarrow> evaluation list \<Rightarrow> (json option) wait_result" where
  "waitForFunction tmo polling start0 rs = function_loop (timeout_of tmo) start0 rs 0 0"

section \<open>What happens to a page\<close>

text \<open>
  One turn of the event loop: a callback of the runtime (a frame on the socket, a timer, the
  socket opening or failing), time passing, or a call of the program's interface; then the
  suspended async functions that can go on do.
\<close>

datatype event =
    Message "json option"
  | Timer nat
  | SocketOpen
  | SocketError
  | Tick int
  | CallSend string json
  | CallClose
  | CallGoto string NavigateOptions
  | CallReload NavigateOptions
  | CallWaitForNavigation NavigateOptions
  | CallWaitForResponse urlOrPredicate "int option"
  | CallWaitForRequest urlOrPredicate "int option"
  | CallStart
  | CallStop
  | CallIsRecording
  | CallFrameCount

fun call :: "event \<Rightarrow> world \<Rightarrow> world" where
  "call (Message d) w = snd (handleMessage d w)"
| "call (Timer t) w = fire t w"
| "call SocketOpen w = ws_open w"
| "call SocketError w = ws_error w"
| "call (Tick d) w = w\<lparr>clock := clock w + d\<rparr>"
| "call (CallSend method params) w = snd (send method params w)"
| "call CallClose w = close w"
| "call (CallGoto url opts) w = snd (goto url opts w)"
| "call (CallReload opts) w = snd (reload opts w)"
| "call (CallWaitForNavigation opts) w = snd (waitForNavigation opts w)"
| "call (CallWaitForResponse u tmo) w = snd (waitForResponse u tmo w)"
| "call (CallWaitForRequest u tmo) w = snd (waitForRequest u tmo w)"
| "call CallStart w = snd (start w)"
| "call CallStop w = snd (stop w)"
| "call CallIsRecording w = snd (isRecording w)"
| "call CallFrameCount w = snd (frameCount w)"

definition step :: "event \<Rightarrow> world \<Rightarrow> world" where
  "step e w = drain (call e w)"

definition run :: "event list \<Rightarrow> world \<Rightarrow> world" where
  "run es w = fold step es w"

section \<open>Auxiliary notions of the properties\<close>

text \<open>
  The promise a function object or a suspended async function settles when it runs: the
  one promise its closure holds a \<open>resolve\<close> or \<open>reject\<close> of.
\<close>

fun listener_targets :: "listener \<Rightarrow> nat set" where
  "listener_targets (LoadHandler ev p) = {p}"
| "listener_targets (NetworkHandler k u t p) = {p}"
| "listener_targets FrameHandler = {}"

fun timer_target :: "timer_callback \<Rightarrow> nat" where
  "timer_target (NavTimer p e) = p"
| "timer_target (NetworkTimer k h p) = p"

fun task_target :: "task \<Rightarrow> nat" where
  "task_target (AwaitSend sp lp tmo e rp) = rp"
| "task_target (AwaitRace lp tp t rp) = rp"
| "task_target (AwaitStop sp rp) = rp"
| "task_target (AwaitDone sp rp) = rp"

text \<open>
  Every promise a slot, a listener, a timer callback, a suspended async function or a queued
  call refers to has been created, and no slot has an identifier that is still to come.
\<close>

definition well_formed :: "world \<Rightarrow> bool" where
  "well_formed w \<longleftrightarrow>
     (\<forall>x \<in> set (callbacks w). fst x \<le> idc w \<and> snd x < length (promises w)) \<and>
     (\<forall>c \<in> set (closures w). \<forall>q \<in> listener_targets c. q < length (promises w)) \<and>
     (\<forall>cb \<in> set (map fst (timers w)). timer_target cb < length (promises w)) \<and>
     (\<forall>k \<in> set (tasks w). task_target k < length (promises w)) \<and>
     (\<forall>x \<in> set (queue w). snd (snd x) < length (promises w))"

text \<open>
  The promise \<open>p\<close> is pending and the slot \<open>i\<close> of \<open>callbacks\<close>, and nothing else, holds
  its \<open>resolve\<close> and \<open>reject\<close>.
\<close>

definition owned :: "nat \<Rightarrow> nat \<Rightarrow> world \<Rightarrow> bool" where
  "owned i p w \<longleftrightarrow>
     p < length (promises w) \<and> promises w ! p = Pending \<and>
     map_of (callbacks w) i = Some p \<and> i \<le> idc w \<and>
     (\<forall>x \<in> set (callbacks w). snd x = p \<longrightarrow> fst x = i) \<and>
     (\<forall>c \<in> set (closures w). p \<notin> listener_targets c) \<and>
     (\<forall>cb \<in> set (map fst (timers w)). timer_target cb \<noteq> p) \<and>
     (\<forall>k \<in> set (tasks w). task_target k \<noteq> p) \<and>
     (\<forall>x \<in> set (queue w). snd (snd x) \<noteq> p)"

text \<open>
  The promise \<open>p\<close> is pending and belongs to the call at place \<open>n\<close> of the queue of a
  connecting socket, and to nothing else; \<open>i\<close> is the identifier that call takes when the
  socket opens.
\<close>

definition queued :: "nat \<Rightarrow> nat \<Rightarrow> nat \<Rightarrow> world \<Rightarrow> bool" where
  "queued i n p w \<longleftrightarrow>
     ready w = Pending \<and> idc w + n + 1 = i \<and> p < length (promises w) \<and> promises w ! p = Pending \<and>
     n < length (queue w) \<and> snd (snd (queue w ! n)) = p \<and>
     (\<forall>j < length (queue w). snd (snd (queue w ! j)) = p \<longrightarrow> j = n) \<and>
     (\<forall>x \<in> set (callbacks w). snd x \<noteq> p) \<and>
     (\<forall>c \<in> set (closures w). p \<notin> listener_targets c) \<and>
     (\<forall>cb \<in> set (map fst (timers w)). timer_target cb \<noteq> p) \<and>
     (\<forall>x \<in> set (tasks w). task_target x \<noteq> p)"

text \<open>The promise \<open>p\<close> is pending and nothing holds its \<open>resolve\<close> or \<open>reject\<close>.\<close>

definition free :: "nat \<Rightarrow> world \<Rightarrow> bool" where
  "free p w \<longleftrightarrow>
     p < length (promises w) \<and> promises w ! p = Pending \<and>
     (\<forall>x \<in> set (callbacks w). snd x \<noteq> p) \<and>
     (\<forall>c \<in> set (closures w). p \<notin> listener_targets c) \<and>
     (\<forall>cb \<in> set (map fst (timers w)). timer_target cb \<noteq> p) \<and>
     (\<forall>x \<in> set (tasks w). task_target x \<noteq> p) \<and>
     (\<forall>x \<in> set (queue w). snd (snd x) \<noteq> p)"

text \<open>
  No call waits at \<open>await this.ready\<close> once \<open>ready\<close> is settled: so it is at the end of
  every turn of the event loop.
\<close>

definition flushed :: "world \<Rightarrow> bool" where
  "flushed w \<longleftrightarrow> ready w = Pending \<or> queue w = []"

text \<open>The parsed frame has the identifier \<open>i\<close>.\<close>

fun carries_id :: "nat \<Rightarrow> json option \<Rightarrow> bool" where
  "carries_id i (Some msg) = (get_prop msg ''id'' = Some (JNum (int i)))"
| "carries_id i None = False"

text \<open>The promise \<open>p\<close> is settled with \<open>v\<close>.\<close>

definition settled :: "nat \<Rightarrow> pstate \<Rightarrow> world \<Rightarrow> bool" where
  "settled p v w \<longleftrightarrow> v \<noteq> Pending \<and> p < length (promises w) \<and> promises w ! p = v"

text \<open>
  What C1 says a call receives: the result or the error of the frame that carries its
  identifier, that is of the first such frame, or the rejection of \<open>close\<close> when that comes
  before it. \<open>settled_by i es\<close> reads it off the events \<open>es\<close> that follow the call.
\<close>

definition outcome :: "json \<Rightarrow> pstate" where
  "outcome msg =
     (if truthy (get_prop msg ''error'')
      then Rejected (RemoteError (case get_prop msg ''error'' of
                                    Some err \<Rightarrow> get_prop err ''message'' | None \<Rightarrow> None))
      else Fulfilled (get_prop msg ''result''))"

fun settled_by :: "nat \<Rightarrow> event list \<Rightarrow> pstate" where
  "settled_by i [] = Pending"
| "settled_by i (Message (Some msg) # es) =
     (if get_prop msg ''id'' = Some (JNum (int i)) then outcome msg else settled_by i es)"
| "settled_by i (CallClose # es) = Rejected (Error ''Connection closed'')"
| "settled_by i (e # es) = settled_by i es"

text \<open>The screencast is stopped and its buffer holds the frames \<open>fs\<close>.\<close>

definition stopped_with :: "json list \<Rightarrow> world \<Rightarrow> bool" where
  "stopped_with fs w \<longleftrightarrow> \<not> recording (sc w) \<and> frames (sc w) = fs"


text \<open>
  A recording: the socket opens, \<open>start\<close>, its answer, two frames, \<open>stop\<close>. In
  \<open>recorded_answered\<close> the answer to the stop command has arrived and \<open>stop\<close> has not gone
  on yet.
\<close>

definition recorded :: world where
  "recorded =
     run [SocketOpen, CallStart,
          Message (Some (JObj [(''id'', JNum 1), (''result'', JObj [])])),
          Message (Some (JObj [(''method'', JStr ''Page.screencastFrame''),
             (''params'', JObj [(''data'', JStr ''AAAA''), (''sessionId'', JNum 1)])])),
          Message (Some (JObj [(''method'', JStr ''Page.screencastFrame''),
             (''params'', JObj [(''data'', JStr ''BBBB''), (''sessionId'', JNum 2)])])),
          CallStop] new_session"

definition recorded_answered :: world where
  "recorded_answered =
     call (Message (Some (JObj [(''id'', JNum 4), (''result'', JObj [])]))) recorded"

text \<open>
  After a call with identifier 2: another call, then the answers to 3, 1 and 2 in that order,
  the answer to 2 an error, and a second frame with identifier 2.
\<close>

definition three_calls :: "event list" where
  "three_calls =
     [CallSend ''Runtime.enable'' (JObj []),
      Message (Some (JObj [(''id'', JNum 3), (''result'', JStr ''C'')])),
      Message (Some (JObj [(''id'', JNum 1), (''result'', JStr ''A'')])),
      Message (Some (JObj [(''id'', JNum 2),
                           (''error'', JObj [(''message'', JStr ''no such method'')])])),
      Message (Some (JObj [(''id'', JNum 2), (''result'', JStr ''late'')]))]"

text \<open>An open session with two calls unanswered and a navigation wait.\<close>

definition two_pending :: world where
  "two_pending =
     run [SocketOpen, CallSend ''Page.enable'' (JObj []), CallSend ''DOM.enable'' (JObj []),
          CallWaitForNavigation \<lparr>timeout = None, waitUntil = None\<rparr>] new_session"

text \<open>A session closed after its socket opened, and one closed after its socket failed.\<close>

definition closed_session :: world where
  "closed_session = run [SocketOpen, CallSend ''Page.enable'' (JObj []), CallClose] new_session"

definition failed_session :: world where
  "failed_session = run [SocketError, CallClose] new_session"

text \<open>
  A traffic event of kind \<open>k\<close>: a frame without an identifier whose method is the event
  of \<open>k\<close> and whose \<open>params\<close> hold, under the key of \<open>k\<close>, an object with a string
  \<open>url\<close>. \<open>traffic_of k e\<close> is that object. \<open>first_match\<close> is what C7 says the wait
  resolves with: the first event of the sequence whose url matches.
\<close>

fun traffic_of :: "traffic \<Rightarrow> event \<Rightarrow> json option" where
  "traffic_of k (Message (Some msg)) =
     (if msg \<noteq> JNull \<and> get_prop msg ''id'' = None \<and>
         get_prop msg ''method'' = Some (JStr (traffic_event k))
      then (case destructure (get_prop msg ''params'') (traffic_key k) of
              Inr r \<Rightarrow> (case get_prop r ''url'' of Some (JStr s) \<Rightarrow> Some r | _ \<Rightarrow> None)
            | Inl e \<Rightarrow> None)
      else None)"
| "traffic_of k _ = None"

definition matching :: "urlOrPredicate \<Rightarrow> json \<Rightarrow> bool" where
  "matching u r \<longleftrightarrow> matches u (get_prop r ''url'') = Inr True"

fun first_match :: "traffic \<Rightarrow> urlOrPredicate \<Rightarrow> event list \<Rightarrow> json option" where
  "first_match k u [] = None"
| "first_match k u (e # es) =
     (case traffic_of k e of
        Some r \<Rightarrow> if matching u r then Some r else first_match k u es
      | None \<Rightarrow> first_match k u es)"

text \<open>
  The listeners registered for the event of \<open>k\<close> are handlers of network waits of kind
  \<open>k\<close>, and they and the suspended async functions refer to promises and timers that
  exist.
\<close>

fun task_timer :: "task \<Rightarrow> nat option" where
  "task_timer (AwaitRace lp tp t rp) = Some t"
| "task_timer _ = None"

definition network_ready :: "traffic \<Rightarrow> world \<Rightarrow> bool" where
  "network_ready k w \<longleftrightarrow>
     (\<forall>h \<in> set (listeners_of (traffic_event k) w).
        h < length (closures w) \<and>
        (case closures w ! h of
           NetworkHandler k' u t p \<Rightarrow> k' = k \<and> p < length (promises w) \<and> t < length (timers w)
         | _ \<Rightarrow> False)) \<and>
     (\<forall>x \<in> set (tasks w).
        task_target x < length (promises w) \<and>
        (case task_timer x of Some t \<Rightarrow> t < length (timers w) | None \<Rightarrow> True))"

text \<open>
  The network wait with handler \<open>h\<close>, timer \<open>t\<close> and promise \<open>p\<close> is waiting: the handler
  is registered, the timer armed, the promise pending, and no other listener of the event
  and no suspended async function holds \<open>p\<close> or \<open>t\<close>.
\<close>

definition waiting :: "traffic \<Rightarrow> urlOrPredicate \<Rightarrow> nat \<Rightarrow> nat \<Rightarrow> nat \<Rightarrow> world \<Rightarrow> bool" where
  "waiting k u h t p w \<longleftrightarrow>
     h < length (closures w) \<and> closures w ! h = NetworkHandler k u t p \<and>
     h \<in> set (listeners_of (traffic_event k) w) \<and>
     p < length (promises w) \<and> promises w ! p = Pending \<and>
     t < length (timers w) \<and> fst (timers w ! t) = NetworkTimer k h p \<and> snd (snd (timers w ! t)) \<and>
     (\<forall>h' \<in> set (listeners_of (traffic_event k) w).
        h' \<noteq> h \<longrightarrow>
          h' < length (closures w) \<and>
          (case closures w ! h' of
             NetworkHandler k' u' t' p' \<Rightarrow> k' = k \<and> p' \<noteq> p \<and> t' \<noteq> t
           | _ \<Rightarrow> False)) \<and>
     (\<forall>x \<in> set (tasks w). task_target x \<noteq> p \<and> task_timer x \<noteq> Some t)"

text \<open>The handler \<open>h\<close> is not registered for \<open>ev\<close> and the timer \<open>t\<close> is not armed.\<close>

definition gone :: "string \<Rightarrow> nat \<Rightarrow> nat \<Rightarrow> world \<Rightarrow> bool" where
  "gone ev h t w \<longleftrightarrow>
     h \<notin> set (listeners_of ev w) \<and> t < length (timers w) \<and> \<not> snd (snd (timers w ! t))"

text \<open>
  Five responses of which the third is the first to match \<open>/api/data\<close>, a session with an
  earlier network wait still registered, and a request with headers.
\<close>

definition response_event :: "string \<Rightarrow> int \<Rightarrow> event" where
  "response_event url status =
     Message (Some (JObj [(''method'', JStr ''Network.responseReceived''),
       (''params'', JObj [(''requestId'', JStr ''1''),
          (''response'', JObj [(''url'', JStr url), (''status'', JNum status),
             (''headers'', JObj [(''content-type'', JStr ''text/html'')])])])]))"

definition burst :: "event list" where
  "burst =
     [response_event ''https://example.com/'' 200,
      response_event ''https://example.com/style.css'' 304,
      response_event ''https://example.com/api/data?page=1'' 201,
      response_event ''https://example.com/api/data?page=2'' 500,
      response_event ''https://example.com/logo.png'' 200]"

definition armed :: world where
  "armed = run [SocketOpen, CallWaitForResponse (Substring ''/never'') None] new_session"

definition request_event :: event where
  "request_event =
     Message (Some (JObj [(''method'', JStr ''Network.requestWillBeSent''),
       (''params'', JObj [(''request'', JObj [(''url'', JStr ''https://example.com/api/data''),
          (''method'', JStr ''POST''),
          (''headers'', JObj [(''accept'', JStr ''*/*'')])])])]))"

text \<open>An open session without listeners, and a load event.\<close>

definition open_session :: world where
  "open_session = run [SocketOpen] new_session"

definition load_event :: event where
  "load_event =
     Message (Some (JObj [(''method'', JStr ''Page.loadEventFired''),
                          (''params'', JObj [(''timestamp'', JNum 1)])]))"

text \<open>
  A session with one call out, and what follows a second call made on it: a third call
  and the answer to the first.
\<close>

definition two_calls :: "event list" where
  "two_calls = [SocketOpen, CallSend ''Page.enable'' (JObj [])]"

definition one_answer :: "event list" where
  "one_answer = [CallSend ''Runtime.enable'' (JObj []),
                 Message (Some (JObj [(''id'', JNum 1), (''result'', JObj [])]))]"

text \<open>
  What the registrations of a session keep: a handler is registered under the event it was
  made for, which for a load handler is one of the two load events; the timer a network
  handler clears and the timer a suspended race clears have been set.
\<close>

fun listener_event :: "listener \<Rightarrow> string" where
  "listener_event (LoadHandler ev p) = ev"
| "listener_event (NetworkHandler k u t p) = traffic_event k"
| "listener_event FrameHandler = ''Page.screencastFrame''"

fun listener_ok :: "nat \<Rightarrow> listener \<Rightarrow> bool" where
  "listener_ok n (LoadHandler ev p) =
     (ev = ''Page.domContentEventFired'' \<or> ev = ''Page.loadEventFired'')"
| "listener_ok n (NetworkHandler k u t p) = (t < n)"
| "listener_ok n FrameHandler = True"

fun task_ok :: "nat \<Rightarrow> task \<Rightarrow> bool" where
  "task_ok n (AwaitRace lp tp t rp) = (t < n)"
| "task_ok n _ = True"

definition registered :: "world \<Rightarrow> bool" where
  "registered w \<longleftrightarrow>
     (\<forall>x \<in> set (eventListeners w). \<forall>h \<in> set (snd x).
        h < length (closures w) \<and> listener_event (closures w ! h) = fst x) \<and>
     (\<forall>c \<in> set (closures w). listener_ok (length (timers w)) c) \<and>
     (\<forall>k \<in> set (tasks w). task_ok (length (timers w)) k)"


chapter \<open>Properties\<close>

section \<open>The keyboard's modifier bitmask\<close>

lemma down_modifiers_cases:
  "down_modifiers key m =
     (if key = ''Shift'' then m OR 8 else if key = ''Control'' then m OR 4
      else if key = ''Alt'' then m OR 2 else if key = ''Meta'' then m OR 1 else m)"
  by (simp add: down_modifiers_def)

lemma up_modifiers_cases:
  "up_modifiers key m =
     (if key = ''Shift'' then m AND NOT 8 else if key = ''Control'' then m AND NOT 4
      else if key = ''Alt'' then m AND NOT 2 else if key = ''Meta'' then m AND NOT 1 else m)"
  by (simp add: up_modifiers_def)

lemma modifiers_down: "modifiers (fst (snd (down key kw))) = down_modifiers key (modifiers (fst kw))"
  by (simp add: down_def Let_def split: prod.splits)

lemma modifiers_up: "modifiers (fst (snd (up key kw))) = up_modifiers key (modifiers (fst kw))"
  by (simp add: up_def Let_def split: prod.splits)

lemma or_and_not_same: "(m OR b) AND NOT b = m AND NOT (b :: 32 word)"
  by (intro bit_word_eqI) (auto simp add: bit_simps)

lemma single_bit_restore:
  fixes m :: "32 word"
  assumes "m OR 2 ^ k \<noteq> m"
  shows "(m OR 2 ^ k) AND NOT (2 ^ k) = m"
proof -
  have nb: "\<not> bit m k"
  proof
    assume "bit m k"
    then have "m OR 2 ^ k = m"
      by (intro bit_word_eqI) (auto simp add: bit_simps)
    with assms show False by simp
  qed
  show ?thesis
    using nb by (intro bit_word_eqI) (auto simp add: bit_simps)
qed

lemma up_down_modifiers_changed:
  assumes "down_modifiers key m \<noteq> m"
  shows "up_modifiers key (down_modifiers key m) = m"
proof -
  have r8: "m OR 8 \<noteq> m \<Longrightarrow> (m OR 8) AND NOT 8 = m"
    using single_bit_restore [of m 3] by simp
  have r4: "m OR 4 \<noteq> m \<Longrightarrow> (m OR 4) AND NOT 4 = m"
    using single_bit_restore [of m 2] by simp
  have r2: "m OR 2 \<noteq> m \<Longrightarrow> (m OR 2) AND NOT 2 = m"
    using single_bit_restore [of m 1] by simp
  have r1: "m OR 1 \<noteq> m \<Longrightarrow> (m OR 1) AND NOT 1 = m"
    using single_bit_restore [of m 0] by simp
  show ?thesis
    using assms r8 r4 r2 r1
    by (simp add: down_modifiers_cases up_modifiers_cases split: if_splits)
qed

lemma up_down_modifiers: "up_modifiers key (down_modifiers key m) = up_modifiers key m"
  using or_and_not_same [of m 8] or_and_not_same [of m 4] or_and_not_same [of m 2]
    or_and_not_same [of m 1]
  by (simp add: down_modifiers_cases up_modifiers_cases)

text \<open>
  C9, as the code has it. With \<open>m\<close> the bitmask of a keyboard, \<open>md\<close> the bitmask after
  \<open>down(k)\<close>, \<open>mu\<close> the bitmask after \<open>up(k)\<close> and \<open>mdu\<close> the bitmask after \<open>down(k)\<close>
  followed by \<open>up(k)\<close>: for Shift, Control, Alt and Meta, \<open>down\<close> sets the bit 8, 4, 2, 1
  and \<open>up\<close> clears it; for any other key \<open>down\<close>, \<open>up\<close> and \<open>down\<close> followed by \<open>up\<close>
  leave the bitmask as it was; \<open>down(k)\<close> followed by \<open>up(k)\<close> restores the bitmask whenever
  \<open>down(k)\<close> changed it, and in every case leaves what \<open>up(k)\<close> alone leaves (the bit of
  \<open>k\<close> cleared, also when it was set before \<open>down(k)\<close>).
\<close>

theorem keyboard_modifier_bitmask:
  "(let m = modifiers kb;
        md = modifiers (fst (snd (down key (kb, w))));
        mu = modifiers (fst (snd (up key (kb, w))));
        mdu = modifiers (fst (snd (up key (snd (down key (kb, w))))))
    in (key = ''Shift'' \<longrightarrow> md = m OR 8 \<and> mu = m AND NOT 8) \<and>
       (key = ''Control'' \<longrightarrow> md = m OR 4 \<and> mu = m AND NOT 4) \<and>
       (key = ''Alt'' \<longrightarrow> md = m OR 2 \<and> mu = m AND NOT 2) \<and>
       (key = ''Meta'' \<longrightarrow> md = m OR 1 \<and> mu = m AND NOT 1) \<and>
       (key \<notin> {''Shift'', ''Control'', ''Alt'', ''Meta''} \<longrightarrow> md = m \<and> mu = m \<and> mdu = m) \<and>
       (md \<noteq> m \<longrightarrow> mdu = m) \<and>
       mdu = mu)"
proof -
  have a: "key = ''Shift'' \<longrightarrow>
             down_modifiers key (modifiers kb) = modifiers kb OR 8 \<and>
             up_modifiers key (modifiers kb) = modifiers kb AND NOT 8"
    by (simp add: down_modifiers_cases up_modifiers_cases)
  have b: "key = ''Control'' \<longrightarrow>
             down_modifiers key (modifiers kb) = modifiers kb OR 4 \<and>
             up_modifiers key (modifiers kb) = modifiers kb AND NOT 4"
    by (simp add: down_modifiers_cases up_modifiers_cases)
  have c: "key = ''Alt'' \<longrightarrow>
             down_modifiers key (modifiers kb) = modifiers kb OR 2 \<and>
             up_modifiers key (modifiers kb) = modifiers kb AND NOT 2"
    by (simp add: down_modifiers_cases up_modifiers_cases)
  have d: "key = ''Meta'' \<longrightarrow>
             down_modifiers key (modifiers kb) = modifiers kb OR 1 \<and>
             up_modifiers key (modifiers kb) = modifiers kb AND NOT 1"
    by (simp add: down_modifiers_cases up_modifiers_cases)
  have e: "key \<notin> {''Shift'', ''Control'', ''Alt'', ''Meta''} \<longrightarrow>
             down_modifiers key (modifiers kb) = modifiers kb \<and>
             up_modifiers key (modifiers kb) = modifiers kb \<and>
             up_modifiers key (down_modifiers key (modifiers kb)) = modifiers kb"
    by (simp add: down_modifiers_cases up_modifiers_cases)
  have f: "down_modifiers key (modifiers kb) \<noteq> modifiers kb \<longrightarrow>
             up_modifiers key (down_modifiers key (modifiers kb)) = modifiers kb"
    using up_down_modifiers_changed by blast
  show ?thesis
    unfolding Let_def modifiers_down modifiers_up
    using a b c d e f up_down_modifiers by simp
qed

theorem keyboard_modifier_bitmask_witness:
  "modifiers (fst (snd (down ''Shift'' (\<lparr>modifiers = 0\<rparr>, new_session)))) = 8 \<and>
   modifiers (fst (snd (up ''Shift'' (\<lparr>modifiers = 0\<rparr>, new_session)))) = 0 \<and>
   modifiers (fst (snd (up ''Shift'' (snd (down ''Shift'' (\<lparr>modifiers = 0\<rparr>, new_session)))))) = 0"
  using keyboard_modifier_bitmask [of "\<lparr>modifiers = 0\<rparr>" "''Shift''" new_session]
  by (simp add: Let_def)

text \<open>
  C9 as stated fails: with Shift already held (the bitmask is 8 after one \<open>down("Shift")\<close>),
  a second \<open>down("Shift")\<close> followed by \<open>up("Shift")\<close> leaves 0, not 8.
\<close>

theorem keyboard_down_up_counterexample:
  "modifiers (fst (snd (down ''Shift'' (\<lparr>modifiers = 0\<rparr>, new_session)))) = 8 \<and>
   modifiers (fst (snd (up ''Shift'' (snd (down ''Shift''
     (snd (down ''Shift'' (\<lparr>modifiers = 0\<rparr>, new_session)))))))) = 0"
  by (simp add: modifiers_down modifiers_up down_modifiers_cases up_modifiers_cases)


section \<open>The screencast\<close>

lemma sc_settle [simp]: "sc (settle p v w) = sc w"
  by (simp add: settle_def)
lemma sc_resolve [simp]: "sc (resolve p v w) = sc w"
  by (simp add: resolve_def)
lemma sc_reject [simp]: "sc (reject p e w) = sc w"
  by (simp add: reject_def)
lemma sc_on [simp]: "sc (on ev h w) = sc w"
  by (simp add: on_def split: option.splits)
lemma sc_off [simp]: "sc (off ev h w) = sc w"
  by (simp add: off_def split: option.splits)
lemma sc_clearTimeout [simp]: "sc (clearTimeout t w) = sc w"
  by (simp add: clearTimeout_def)
lemma sc_send_body [simp]: "sc (send_body m ps p w) = sc w"
  by (simp add: send_body_def Let_def)
lemma sc_send [simp]: "sc (snd (send m ps w)) = sc w"
  by (simp add: send_def Let_def split: pstate.splits)
lemma sc_new_promise [simp]: "sc (snd (new_promise v w)) = sc w"
  by (simp add: new_promise_def)
lemma sc_add_task [simp]: "sc (add_task k w) = sc w"
  by (simp add: add_task_def split: option.splits)
lemma sc_fold_reject [simp]: "sc (fold (\<lambda>(i, p). reject p e) xs w) = sc w"
  by (induction xs arbitrary: w) (auto)
lemma sc_fold_reject3 [simp]: "sc (fold (\<lambda>(m, ps, p). reject p e) xs w) = sc w"
  by (induction xs arbitrary: w) (auto)
lemma sc_fold_send_body [simp]: "sc (fold (\<lambda>(m, ps, p). send_body m ps p) xs w) = sc w"
  by (induction xs arbitrary: w) (auto)
lemma sc_close [simp]: "sc (close w) = sc w"
  by (simp add: close_def)
lemma sc_ws_open [simp]: "sc (ws_open w) = sc w"
  by (simp add: ws_open_def)
lemma sc_ws_error [simp]: "sc (ws_error w) = sc w"
  by (simp add: ws_error_def)
lemma sc_run_timer [simp]: "sc (run_timer cb w) = sc w"
  by (cases cb) simp_all
lemma sc_fire [simp]: "sc (fire t w) = sc w"
  by (simp add: fire_def)

lemma sc_frame_handler_idle: "\<not> recording (sc w) \<Longrightarrow> frame_handler params w = w"
  by (simp add: frame_handler_def)

lemma sc_invoke_idle: "\<not> recording (sc w) \<Longrightarrow> sc (snd (invoke h c params w)) = sc w"
  by (cases c) (auto simp: sc_frame_handler_idle split: sum.splits bool.splits)

lemma sc_fanout_idle: "\<not> recording (sc w) \<Longrightarrow> sc (snd (fanout ev hs params w)) = sc w"
proof (induction hs arbitrary: w)
  case Nil
  then show ?case by simp
next
  case (Cons h hs)
  show ?case
  proof (cases "h \<in> set (listeners_of ev w) \<and> h < length (closures w)")
    case False
    then show ?thesis using Cons by auto
  next
    case True
    obtain r w' where i: "invoke h (closures w ! h) params w = (r, w')"
      by (cases "invoke h (closures w ! h) params w")
    have s: "sc w' = sc w"
      using sc_invoke_idle [OF Cons.prems, of h "closures w ! h" params] i by simp
    show ?thesis
    proof (cases r)
      case None
      then show ?thesis using True i s Cons.IH [of w'] Cons.prems by simp
    next
      case (Some e)
      then show ?thesis using True i s by simp
    qed
  qed
qed

lemma sc_handleMessage_idle:
  "\<not> recording (sc w) \<Longrightarrow> sc (snd (handleMessage d w)) = sc w"
  by (auto simp: handleMessage_def Let_def sc_fanout_idle split: option.splits json.splits)


lemma sc_race [simp]: "sc (snd (race lp tp t rp w)) = sc w"
  by (simp add: race_def split: pstate.splits)
lemma sc_arm_and_race [simp]: "sc (snd (arm_and_race lp tmo e rp w)) = sc w"
  by (simp add: arm_and_race_def Let_def)

lemma stop_rest_sc:
  "frames (sc (stop_rest rp w)) = frames (sc w) \<and> \<not> recording (sc (stop_rest rp w))"
  by (simp add: stop_rest_def Let_def split: option.splits)

lemma stopped_resume: "stopped_with fs w \<Longrightarrow> stopped_with fs (snd (resume k w))"
  by (cases k) (auto simp: stopped_with_def stop_rest_sc split: pstate.splits)

lemma stopped_resume_all: "stopped_with fs w \<Longrightarrow> stopped_with fs (snd (resume_all ks w))"
proof (induction ks arbitrary: w)
  case Nil
  then show ?case by simp
next
  case (Cons k ks)
  obtain r w1 where r: "resume k w = (r, w1)" by (cases "resume k w")
  obtain rs w2 where rs: "resume_all ks w1 = (rs, w2)" by (cases "resume_all ks w1")
  have "stopped_with fs w1" using stopped_resume [OF Cons.prems, of k] r by simp
  then have "stopped_with fs w2" using Cons.IH [of w1] rs by simp
  then show ?case using r rs by simp
qed

lemma stopped_drain: "stopped_with fs w \<Longrightarrow> stopped_with fs (drain w)"
proof -
  assume a: "stopped_with fs w"
  obtain ks w' where r: "resume_all (tasks w) w = (ks, w')" by (cases "resume_all (tasks w) w")
  have "stopped_with fs w'" using stopped_resume_all [OF a, of "tasks w"] r by simp
  then show ?thesis using r by (simp add: drain_def stopped_with_def)
qed

lemma sc_loadPromise [simp]: "sc (snd (loadPromise ev w)) = sc w"
  by (simp add: loadPromise_def Let_def)

lemma sc_goto [simp]: "sc (snd (goto url opts w)) = sc w"
  by (simp add: goto_def Let_def split_beta)
lemma sc_reload [simp]: "sc (snd (reload opts w)) = sc w"
  by (simp add: reload_def Let_def split_beta)
lemma sc_waitForNavigation [simp]: "sc (snd (waitForNavigation opts w)) = sc w"
  by (simp add: waitForNavigation_def Let_def split_beta)
lemma sc_waitForResponse [simp]: "sc (snd (waitForResponse u tmo w)) = sc w"
  by (simp add: waitForResponse_def network_wait_def Let_def)
lemma sc_waitForRequest [simp]: "sc (snd (waitForRequest u tmo w)) = sc w"
  by (simp add: waitForRequest_def network_wait_def Let_def)
lemma sc_stop_idle: "\<not> recording (sc w) \<Longrightarrow> sc (snd (stop w)) = sc w"
  by (simp add: stop_def)

lemma stopped_call: "stopped_with fs w \<Longrightarrow> e \<noteq> CallStart \<Longrightarrow> stopped_with fs (call e w)"
  by (cases e)
    (simp_all add: stopped_with_def sc_handleMessage_idle sc_stop_idle isRecording_def
       frameCount_def)

lemma stopped_step: "stopped_with fs w \<Longrightarrow> e \<noteq> CallStart \<Longrightarrow> stopped_with fs (step e w)"
  by (simp add: step_def stopped_drain stopped_call)

lemma stopped_run:
  "stopped_with fs w \<Longrightarrow> CallStart \<notin> set es \<Longrightarrow> stopped_with fs (run es w)"
  unfolding run_def
  by (induction es arbitrary: w) (auto simp: stopped_step)


lemma start_while_recording:
  "recording (sc w) \<Longrightarrow>
     start w = (length (promises w),
                w\<lparr>promises := promises w @ [Rejected (Error ''Screencast already recording'')]\<rparr>)"
  by (simp add: start_def new_promise_def)

lemma stop_while_stopped:
  "\<not> recording (sc w) \<Longrightarrow>
     stop w = (length (promises w),
               w\<lparr>promises := promises w @ [Rejected (Error ''Screencast not recording'')]\<rparr>)"
  by (simp add: stop_def new_promise_def)

lemma pget_last [simp]: "pget (w\<lparr>promises := promises w @ [v]\<rparr>) (length (promises w)) = v"
  by (simp add: pget_def)

lemma start_fresh:
  "\<not> recording (sc w) \<Longrightarrow> frames (sc (snd (start w))) = [] \<and> recording (sc (snd (start w)))"
  by (simp add: start_def Let_def split_beta)

lemma stop_suspends:
  "recording (sc w) \<Longrightarrow>
     tasks (snd (stop w)) = tasks w @ [AwaitStop (length (promises w)) (fst (stop w))]"
  by (simp add: stop_def Let_def split_beta send_def send_body_def new_promise_def add_task_def
      split: pstate.splits)

lemma stop_rest_returns:
  assumes "rp < length (promises w)" and "pget w rp = Pending"
  shows "pget (stop_rest rp w) rp = Fulfilled (Some (JArr (frames (sc w))))"
  using assms
  by (simp add: stop_rest_def Let_def resolve_def settle_def pget_def off_def
      split: option.splits)

text \<open>
  C8. \<open>start\<close> while recording is rejected with "Screencast already recording" and
  \<open>stop\<close> while not recording with "Screencast not recording", both leaving the state as
  it was but for the rejected promise; \<open>start\<close> on a stopped screencast begins with an empty
  buffer; \<open>stop\<close> on a recording screencast suspends until its command is answered, and
  when it goes on it returns the buffer, after which \<open>frameCount\<close> reports the length of the
  returned recording and \<open>isRecording\<close> is false through any events without a \<open>start\<close>;
  \<open>isRecording\<close> and \<open>frameCount\<close> leave the state as it is.
\<close>

theorem screencast_state_machine:
  "(recording (sc w1) \<longrightarrow>
      pget (snd (start w1)) (fst (start w1)) = Rejected (Error ''Screencast already recording'') \<and>
      snd (start w1) =
        w1\<lparr>promises := promises w1 @ [Rejected (Error ''Screencast already recording'')]\<rparr> \<and>
      tasks (snd (stop w1)) = tasks w1 @ [AwaitStop (length (promises w1)) (fst (stop w1))]) \<and>
   (\<not> recording (sc w2) \<longrightarrow>
      pget (snd (stop w2)) (fst (stop w2)) = Rejected (Error ''Screencast not recording'') \<and>
      snd (stop w2) =
        w2\<lparr>promises := promises w2 @ [Rejected (Error ''Screencast not recording'')]\<rparr> \<and>
      frames (sc (snd (start w2))) = [] \<and> recording (sc (snd (start w2)))) \<and>
   (pget w3 sp = Fulfilled v \<and> rp < length (promises w3) \<and> pget w3 rp = Pending \<and>
    CallStart \<notin> set es \<longrightarrow>
      (let w' = snd (resume (AwaitStop sp rp) w3)
       in pget w' rp = Fulfilled (Some (JArr (frames (sc w3)))) \<and>
          fst (frameCount (run es w')) = length (frames (sc w3)) \<and>
          \<not> fst (isRecording (run es w')))) \<and>
   snd (isRecording w4) = w4 \<and> snd (frameCount w4) = w4 \<and>
   fst (isRecording w4) = recording (sc w4) \<and> fst (frameCount w4) = length (frames (sc w4))"
proof -
  have a: "recording (sc w1) \<longrightarrow>
      pget (snd (start w1)) (fst (start w1)) = Rejected (Error ''Screencast already recording'') \<and>
      snd (start w1) =
        w1\<lparr>promises := promises w1 @ [Rejected (Error ''Screencast already recording'')]\<rparr> \<and>
      tasks (snd (stop w1)) = tasks w1 @ [AwaitStop (length (promises w1)) (fst (stop w1))]"
    by (simp add: start_while_recording stop_suspends)
  have b: "\<not> recording (sc w2) \<longrightarrow>
      pget (snd (stop w2)) (fst (stop w2)) = Rejected (Error ''Screencast not recording'') \<and>
      snd (stop w2) =
        w2\<lparr>promises := promises w2 @ [Rejected (Error ''Screencast not recording'')]\<rparr> \<and>
      frames (sc (snd (start w2))) = [] \<and> recording (sc (snd (start w2)))"
    by (simp add: stop_while_stopped start_fresh)
  have c: "pget w3 sp = Fulfilled v \<and> rp < length (promises w3) \<and> pget w3 rp = Pending \<and>
    CallStart \<notin> set es \<longrightarrow>
      (let w' = snd (resume (AwaitStop sp rp) w3)
       in pget w' rp = Fulfilled (Some (JArr (frames (sc w3)))) \<and>
          fst (frameCount (run es w')) = length (frames (sc w3)) \<and>
          \<not> fst (isRecording (run es w')))"
  proof
    assume h: "pget w3 sp = Fulfilled v \<and> rp < length (promises w3) \<and> pget w3 rp = Pending \<and>
      CallStart \<notin> set es"
    have r: "snd (resume (AwaitStop sp rp) w3) = stop_rest rp w3"
      using h by simp
    have "stopped_with (frames (sc w3)) (stop_rest rp w3)"
      using stop_rest_sc [of rp w3] by (simp add: stopped_with_def)
    then have "stopped_with (frames (sc w3)) (run es (stop_rest rp w3))"
      using h by (simp add: stopped_run)
    then show "let w' = snd (resume (AwaitStop sp rp) w3)
       in pget w' rp = Fulfilled (Some (JArr (frames (sc w3)))) \<and>
          fst (frameCount (run es w')) = length (frames (sc w3)) \<and>
          \<not> fst (isRecording (run es w'))"
      using h r stop_rest_returns [of rp w3]
      by (simp add: Let_def stopped_with_def frameCount_def isRecording_def)
  qed
  have d: "snd (isRecording w4) = w4 \<and> snd (frameCount w4) = w4 \<and>
     fst (isRecording w4) = recording (sc w4) \<and> fst (frameCount w4) = length (frames (sc w4))"
    by (simp add: isRecording_def frameCount_def)
  show ?thesis using a b c d by blast
qed

theorem screencast_state_machine_witness:
  "recording (sc recorded) \<and>
   pget (snd (start recorded)) (fst (start recorded)) =
     Rejected (Error ''Screencast already recording'') \<and>
   \<not> recording (sc new_session) \<and>
   pget (snd (stop new_session)) (fst (stop new_session)) =
     Rejected (Error ''Screencast not recording'') \<and>
   frames (sc (snd (start new_session))) = [] \<and>
   pget recorded_answered 4 = Fulfilled (Some (JObj [])) \<and>
   pget recorded_answered 5 = Pending \<and>
   fst (frameCount (run [Message (Some (JObj [(''method'', JStr ''Page.screencastFrame''),
                           (''params'', JObj [(''data'', JStr ''CCCC''), (''sessionId'', JNum 3)])])),
                         CallStop, CallFrameCount]
                     (snd (resume (AwaitStop 4 5) recorded_answered)))) = 2"
proof -
  have h1: "recording (sc recorded)" by code_simp
  have h2: "\<not> recording (sc new_session)" by code_simp
  have h3: "pget recorded_answered 4 = Fulfilled (Some (JObj [])) \<and>
            5 < length (promises recorded_answered) \<and> pget recorded_answered 5 = Pending"
    by code_simp
  have h5: "length (frames (sc recorded_answered)) = 2" by code_simp
  have h4: "CallStart \<notin> set [Message (Some (JObj [(''method'', JStr ''Page.screencastFrame''),
                           (''params'', JObj [(''data'', JStr ''CCCC''), (''sessionId'', JNum 3)])])),
                         CallStop, CallFrameCount]"
    by simp
  note T = screencast_state_machine [of recorded new_session recorded_answered 4 "Some (JObj [])" 5
        "[Message (Some (JObj [(''method'', JStr ''Page.screencastFrame''),
                           (''params'', JObj [(''data'', JStr ''CCCC''), (''sessionId'', JNum 3)])])),
                         CallStop, CallFrameCount]" recorded, unfolded Let_def]
  have a: "pget (snd (start recorded)) (fst (start recorded)) =
     Rejected (Error ''Screencast already recording'')"
    using T h1 by blast
  have b: "pget (snd (stop new_session)) (fst (stop new_session)) =
     Rejected (Error ''Screencast not recording'') \<and> frames (sc (snd (start new_session))) = []"
    using T h2 by blast
  have c: "fst (frameCount (run [Message (Some (JObj [(''method'', JStr ''Page.screencastFrame''),
                           (''params'', JObj [(''data'', JStr ''CCCC''), (''sessionId'', JNum 3)])])),
                         CallStop, CallFrameCount]
                     (snd (resume (AwaitStop 4 5) recorded_answered)))) =
           length (frames (sc recorded_answered))"
    using T h3 h4 by blast
  show ?thesis
    using a b c h1 h2 h3 h5 by presburger
qed

section \<open>The poll loops\<close>

lemma selector_loop_probes: "n \<le> fst (snd (selector_loop sel tmo vis hid s rs n k))"
proof (induction rs arbitrary: n k vis hid)
  case Nil
  then show ?case by simp
next
  case (Cons r rs)
  have le: "n \<le> fst (snd (selector_loop sel tmo v h s rs (Suc n) (Suc k)))" for v h
    using Cons.IH [of "Suc n" v h "Suc k"] by simp
  show ?case
    using le by (simp split: sum.splits option.splits)
qed

lemma function_loop_probes: "n \<le> fst (snd (function_loop tmo s rs n k))"
proof (induction rs arbitrary: n k)
  case Nil
  then show ?case by simp
next
  case (Cons r rs)
  have "Suc n \<le> fst (snd (function_loop tmo s rs (Suc n) (Suc k)))"
    using Cons.IH [of "Suc n" "Suc k"] .
  then have le: "n \<le> fst (snd (function_loop tmo s rs (Suc n) (Suc k)))"
    by simp
  show ?case
    using le by (simp split: sum.splits)
qed

lemma selector_loop_entered:
  assumes "now r - s < tmo"
  shows "1 \<le> fst (snd (selector_loop sel tmo vis hid s (r # rs) 0 0))"
proof -
  have le: "Suc 0 \<le> fst (snd (selector_loop sel tmo v h s rs (Suc 0) (Suc 0)))" for v h
    using selector_loop_probes [of "Suc 0" sel tmo v h s rs "Suc 0"] .
  show ?thesis
    using assms le by (simp split: sum.splits option.splits)
qed

lemma function_loop_entered:
  assumes "at r - s < tmo"
  shows "1 \<le> fst (snd (function_loop tmo s (r # rs) 0 0))"
  using assms function_loop_probes [of "Suc 0" tmo s rs "Suc 0"]
  by (simp split: sum.splits)

lemma waitForSelector_nonpositive:
  assumes "wfs_timeout opts = Some t" and "t \<le> 0" and "start0 \<le> now r"
  shows "waitForSelector selector opts start0 (r # rs) =
           (Some (Inl (Error (''Timeout waiting for selector: '' @ selector))), 0, 0)"
  using assms by (simp add: waitForSelector_def timeout_of_def)

lemma waitForFunction_nonpositive:
  assumes "t \<le> 0" and "start0 \<le> at e"
  shows "waitForFunction (Some t) polling start0 (e # es) =
           (Some (Inl (Error ''Timeout waiting for function'')), 0, 0)"
  using assms by (simp add: waitForFunction_def timeout_of_def)

lemma waitForSelector_not_entered:
  assumes "\<not> now r - start0 < timeout_of (wfs_timeout opts)"
  shows "waitForSelector selector opts start0 (r # rs) =
           (Some (Inl (Error (''Timeout waiting for selector: '' @ selector))), 0, 0)"
  using assms by (simp add: waitForSelector_def)

lemma waitForFunction_not_entered:
  assumes "\<not> at e - start0 < timeout_of tmo"
  shows "waitForFunction tmo polling start0 (e # es) =
           (Some (Inl (Error ''Timeout waiting for function'')), 0, 0)"
  using assms by (simp add: waitForFunction_def)

lemma waitForSelector_probes_iff:
  "1 \<le> fst (snd (waitForSelector selector opts start0 (r # rs))) \<longleftrightarrow>
     now r - start0 < timeout_of (wfs_timeout opts)"
proof (cases "now r - start0 < timeout_of (wfs_timeout opts)")
  case True
  then show ?thesis
    using selector_loop_entered [of r start0 "timeout_of (wfs_timeout opts)" selector
        "flag (visible opts)" "flag (hidden opts)" rs]
    by (simp add: waitForSelector_def)
next
  case False
  then show ?thesis
    using waitForSelector_not_entered [OF False, of selector rs] by simp
qed

lemma waitForFunction_probes_iff:
  "1 \<le> fst (snd (waitForFunction tmo polling start0 (e # es))) \<longleftrightarrow>
     at e - start0 < timeout_of tmo"
proof (cases "at e - start0 < timeout_of tmo")
  case True
  then show ?thesis
    using function_loop_entered [of e start0 "timeout_of tmo" es]
    by (simp add: waitForFunction_def)
next
  case False
  then show ?thesis
    using waitForFunction_not_entered [OF False, of polling es] by simp
qed

text \<open>
  C5, as the code has it. Both loops test the deadline before the first probe. A probe is
  made exactly when the timeout exceeds the time elapsed at the first test; when it does
  not, no probe is made and the wait fails at once with its timeout error. So it is with a
  timeout of zero or less, on a clock that has not gone back since the loop started.
\<close>

theorem poll_loop_nonpositive_timeout:
  "(1 \<le> fst (snd (waitForSelector selector opts start0 (r # rs))) \<longleftrightarrow>
      now r - start0 < timeout_of (wfs_timeout opts)) \<and>
   (\<not> now r - start0 < timeout_of (wfs_timeout opts) \<longrightarrow>
      waitForSelector selector opts start0 (r # rs) =
        (Some (Inl (Error (''Timeout waiting for selector: '' @ selector))), 0, 0)) \<and>
   (1 \<le> fst (snd (waitForFunction tmo polling start1 (e # es))) \<longleftrightarrow>
      at e - start1 < timeout_of tmo) \<and>
   (\<not> at e - start1 < timeout_of tmo \<longrightarrow>
      waitForFunction tmo polling start1 (e # es) =
        (Some (Inl (Error ''Timeout waiting for function'')), 0, 0)) \<and>
   (wfs_timeout opts2 = Some t \<and> t \<le> 0 \<and> start2 \<le> now r2 \<longrightarrow>
      waitForSelector selector2 opts2 start2 (r2 # rs2) =
        (Some (Inl (Error (''Timeout waiting for selector: '' @ selector2))), 0, 0)) \<and>
   (t' \<le> 0 \<and> start3 \<le> at e3 \<longrightarrow>
      waitForFunction (Some t') polling3 start3 (e3 # es3) =
        (Some (Inl (Error ''Timeout waiting for function'')), 0, 0))"
  using waitForSelector_probes_iff [of selector opts start0 r rs]
    waitForSelector_not_entered [of r start0 opts selector rs]
    waitForFunction_probes_iff [of tmo polling start1 e es]
    waitForFunction_not_entered [of e start1 tmo polling es]
    waitForSelector_nonpositive [of opts2 t start2 r2 selector2 rs2]
    waitForFunction_nonpositive [of t' start3 e3 polling3 es3]
  by blast

theorem poll_loop_nonpositive_timeout_witness:
  "waitForSelector ''#app'' \<lparr>wfs_timeout = Some 5, visible = None, hidden = None\<rparr> 1000
     [\<lparr>now = 1010, element = Inr (Some 7), isVisible = Inr True\<rparr>] =
     (Some (Inl (Error ''Timeout waiting for selector: #app'')), 0, 0) \<and>
   \<not> 1 \<le> fst (snd (waitForSelector ''#app''
                       \<lparr>wfs_timeout = Some 5, visible = None, hidden = None\<rparr> 1000
                       [\<lparr>now = 1010, element = Inr (Some 7), isVisible = Inr True\<rparr>])) \<and>
   waitForFunction (Some 5) None 1000 [\<lparr>at = 1010, result_value = Inr (Some (JBool True))\<rparr>] =
     (Some (Inl (Error ''Timeout waiting for function'')), 0, 0) \<and>
   1 \<le> fst (snd (waitForFunction (Some 5) None 1000
               [\<lparr>at = 1004, result_value = Inr (Some (JBool True))\<rparr>])) \<and>
   waitForSelector ''#app'' \<lparr>wfs_timeout = Some (-1), visible = None, hidden = None\<rparr> 1000
     [\<lparr>now = 1000, element = Inr (Some 7), isVisible = Inr True\<rparr>] =
     (Some (Inl (Error ''Timeout waiting for selector: #app'')), 0, 0) \<and>
   waitForFunction (Some 0) None 1000 [\<lparr>at = 1002, result_value = Inr (Some (JBool True))\<rparr>] =
     (Some (Inl (Error ''Timeout waiting for function'')), 0, 0)"
proof -
  note T = poll_loop_nonpositive_timeout
    [of "''#app''" "\<lparr>wfs_timeout = Some 5, visible = None, hidden = None\<rparr>" 1000
        "\<lparr>now = 1010, element = Inr (Some 7), isVisible = Inr True\<rparr>" "[]"
        "Some 5" None 1000 "\<lparr>at = 1010, result_value = Inr (Some (JBool True))\<rparr>" "[]"
        "\<lparr>wfs_timeout = Some (-1), visible = None, hidden = None\<rparr>" "-1" 1000
        "\<lparr>now = 1000, element = Inr (Some 7), isVisible = Inr True\<rparr>" "''#app''" "[]"
        0 1000 "\<lparr>at = 1002, result_value = Inr (Some (JBool True))\<rparr>" None "[]"]
  note U = poll_loop_nonpositive_timeout
    [of "''#app''" "\<lparr>wfs_timeout = Some 5, visible = None, hidden = None\<rparr>" 1000
        "\<lparr>now = 1010, element = Inr (Some 7), isVisible = Inr True\<rparr>" "[]"
        "Some 5" None 1000 "\<lparr>at = 1004, result_value = Inr (Some (JBool True))\<rparr>" "[]"]
  have h1: "\<not> now \<lparr>now = 1010, element = Inr (Some 7), isVisible = Inr True\<rparr> - 1000 <
              timeout_of (wfs_timeout \<lparr>wfs_timeout = Some 5, visible = None, hidden = None\<rparr>)"
    by (simp add: timeout_of_def)
  have h2: "\<not> at \<lparr>at = 1010, result_value = Inr (Some (JBool True))\<rparr> - 1000 < timeout_of (Some 5)"
    by (simp add: timeout_of_def)
  have h3: "at \<lparr>at = 1004, result_value = Inr (Some (JBool True))\<rparr> - 1000 < timeout_of (Some 5)"
    by (simp add: timeout_of_def)
  have h4: "wfs_timeout \<lparr>wfs_timeout = Some (-1), visible = None, hidden = None\<rparr> = Some (-1) \<and>
            (-1::int) \<le> 0 \<and>
            1000 \<le> now \<lparr>now = 1000, element = Inr (Some 7), isVisible = Inr True\<rparr>"
    by simp
  have h5: "(0::int) \<le> 0 \<and> 1000 \<le> at \<lparr>at = 1002, result_value = Inr (Some (JBool True))\<rparr>"
    by simp
  have a: "waitForSelector ''#app'' \<lparr>wfs_timeout = Some 5, visible = None, hidden = None\<rparr> 1000
     [\<lparr>now = 1010, element = Inr (Some 7), isVisible = Inr True\<rparr>] =
     (Some (Inl (Error (''Timeout waiting for selector: '' @ ''#app''))), 0, 0)"
    using T h1 by blast
  have b: "\<not> 1 \<le> fst (snd (waitForSelector ''#app''
                       \<lparr>wfs_timeout = Some 5, visible = None, hidden = None\<rparr> 1000
                       [\<lparr>now = 1010, element = Inr (Some 7), isVisible = Inr True\<rparr>]))"
    using T h1 by blast
  have c: "waitForFunction (Some 5) None 1000 [\<lparr>at = 1010, result_value = Inr (Some (JBool True))\<rparr>] =
     (Some (Inl (Error ''Timeout waiting for function'')), 0, 0)"
    using T h2 by blast
  have d: "1 \<le> fst (snd (waitForFunction (Some 5) None 1000
               [\<lparr>at = 1004, result_value = Inr (Some (JBool True))\<rparr>]))"
    using U h3 by blast
  have e: "waitForSelector ''#app'' \<lparr>wfs_timeout = Some (-1), visible = None, hidden = None\<rparr> 1000
     [\<lparr>now = 1000, element = Inr (Some 7), isVisible = Inr True\<rparr>] =
     (Some (Inl (Error (''Timeout waiting for selector: '' @ ''#app''))), 0, 0)"
    using T h4 by blast
  have f: "waitForFunction (Some 0) None 1000 [\<lparr>at = 1002, result_value = Inr (Some (JBool True))\<rparr>] =
     (Some (Inl (Error ''Timeout waiting for function'')), 0, 0)"
    using T h5 by blast
  show ?thesis
    using a b c d e f by simp
qed

text \<open>
  C5 as stated fails: with a timeout of 0 and an element that is there, \<open>waitForSelector\<close>
  fails without a probe, and so does \<open>waitForFunction\<close> with a timeout of -5 and a function
  that is true.
\<close>

theorem poll_loop_no_probe_counterexample:
  "waitForSelector ''#app'' \<lparr>wfs_timeout = Some 0, visible = None, hidden = None\<rparr> 0
     [\<lparr>now = 0, element = Inr (Some 1), isVisible = Inr True\<rparr>] =
     (Some (Inl (Error ''Timeout waiting for selector: #app'')), 0, 0) \<and>
   waitForFunction (Some (-5)) None 0 [\<lparr>at = 0, result_value = Inr (Some (JBool True))\<rparr>] =
     (Some (Inl (Error ''Timeout waiting for function'')), 0, 0)"
  by (simp add: waitForSelector_def waitForFunction_def timeout_of_def)

lemma hidden_poll:
  assumes "now r - start0 < tmo" and "element r = Inr el" and "isVisible r = Inr v"
  shows "selector_loop selector tmo vis True start0 (r # rs) n k =
           (if el = None \<or> \<not> v then (Some (Inr el), Suc n, k)
            else selector_loop selector tmo vis True start0 rs (Suc n) (Suc k))"
  using assms by (cases el) simp_all

lemma hidden_absent:
  assumes "flag (hidden opts)" and "now r - start0 < timeout_of (wfs_timeout opts)"
    and "element r = Inr None"
  shows "waitForSelector selector opts start0 (r # rs) = (Some (Inr None), 1, 0)"
  using assms by (simp add: waitForSelector_def)

text \<open>
  C6, as the code has it. With \<open>hidden\<close> set, a timeout that exceeds the time elapsed at
  the first loop test and a selector that resolves to no element, \<open>waitForSelector\<close>
  returns \<open>null\<close> after one probe and no sleep. When the timeout does not exceed the time
  elapsed at the first test, as a timeout of zero or less does not on a clock that has not
  gone back, no poll is made and the wait fails with its timeout error. At every turn the
  loop makes with \<open>hidden\<close> set, it returns exactly when the element does not resolve or
  resolves and is not visible, and sleeps and goes on otherwise.
\<close>

theorem waitForSelector_hidden:
  "(flag (hidden opts) \<and> now r - start0 < timeout_of (wfs_timeout opts) \<and>
    element r = Inr None \<longrightarrow>
      waitForSelector selector opts start0 (r # rs) = (Some (Inr None), 1, 0)) \<and>
   (\<not> now r2 - start2 < timeout_of (wfs_timeout opts2) \<longrightarrow>
      waitForSelector selector2 opts2 start2 (r2 # rs2) =
        (Some (Inl (Error (''Timeout waiting for selector: '' @ selector2))), 0, 0)) \<and>
   (wfs_timeout opts3 = Some t \<and> t \<le> 0 \<and> start3 \<le> now r3 \<longrightarrow>
      waitForSelector selector3 opts3 start3 (r3 # rs3) =
        (Some (Inl (Error (''Timeout waiting for selector: '' @ selector3))), 0, 0)) \<and>
   (now r' - start1 < tmo \<and> element r' = Inr el \<and> isVisible r' = Inr v \<longrightarrow>
      selector_loop selector' tmo vis True start1 (r' # rs') n k =
        (if el = None \<or> \<not> v then (Some (Inr el), Suc n, k)
         else selector_loop selector' tmo vis True start1 rs' (Suc n) (Suc k)))"
  using hidden_absent [of opts r start0 selector rs]
    waitForSelector_not_entered [of r2 start2 opts2 selector2 rs2]
    waitForSelector_nonpositive [of opts3 t start3 r3 selector3 rs3]
    hidden_poll [of r' start1 tmo el v selector' vis rs' n k]
  by blast

theorem waitForSelector_hidden_witness:
  "waitForSelector ''#gone'' \<lparr>wfs_timeout = None, visible = None, hidden = Some True\<rparr> 500
     [\<lparr>now = 501, element = Inr None, isVisible = Inr False\<rparr>] = (Some (Inr None), 1, 0) \<and>
   waitForSelector ''#gone'' \<lparr>wfs_timeout = Some 5, visible = None, hidden = Some True\<rparr> 500
     [\<lparr>now = 510, element = Inr None, isVisible = Inr False\<rparr>] =
     (Some (Inl (Error ''Timeout waiting for selector: #gone'')), 0, 0) \<and>
   waitForSelector ''#gone'' \<lparr>wfs_timeout = Some (-1), visible = None, hidden = Some True\<rparr> 500
     [\<lparr>now = 500, element = Inr None, isVisible = Inr False\<rparr>] =
     (Some (Inl (Error ''Timeout waiting for selector: #gone'')), 0, 0) \<and>
   selector_loop ''#menu'' 30000 False True 0
     [\<lparr>now = 0, element = Inr (Some 4), isVisible = Inr True\<rparr>,
      \<lparr>now = 100, element = Inr (Some 4), isVisible = Inr False\<rparr>] 0 0 =
     (Some (Inr (Some 4)), 2, 1)"
proof -
  note T = waitForSelector_hidden
      [of "\<lparr>wfs_timeout = None, visible = None, hidden = Some True\<rparr>"
          "\<lparr>now = 501, element = Inr None, isVisible = Inr False\<rparr>" 500 "''#gone''" "[]"
          "\<lparr>now = 510, element = Inr None, isVisible = Inr False\<rparr>" 500
          "\<lparr>wfs_timeout = Some 5, visible = None, hidden = Some True\<rparr>" "''#gone''" "[]"
          "\<lparr>wfs_timeout = Some (-1), visible = None, hidden = Some True\<rparr>" "-1" 500
          "\<lparr>now = 500, element = Inr None, isVisible = Inr False\<rparr>" "''#gone''" "[]"
          "\<lparr>now = 0, element = Inr (Some 4), isVisible = Inr True\<rparr>" 0 30000 "Some 4" True
          "''#menu''" False "[\<lparr>now = 100, element = Inr (Some 4), isVisible = Inr False\<rparr>]" 0 0]
  have a: "waitForSelector ''#gone'' \<lparr>wfs_timeout = None, visible = None, hidden = Some True\<rparr> 500
     [\<lparr>now = 501, element = Inr None, isVisible = Inr False\<rparr>] = (Some (Inr None), 1, 0)"
    using T by (simp add: flag_def timeout_of_def)
  have h2: "\<not> now \<lparr>now = 510, element = Inr None, isVisible = Inr False\<rparr> - 500 <
              timeout_of (wfs_timeout \<lparr>wfs_timeout = Some 5, visible = None, hidden = Some True\<rparr>)"
    by (simp add: timeout_of_def)
  have c: "waitForSelector ''#gone'' \<lparr>wfs_timeout = Some 5, visible = None, hidden = Some True\<rparr> 500
     [\<lparr>now = 510, element = Inr None, isVisible = Inr False\<rparr>] =
     (Some (Inl (Error (''Timeout waiting for selector: '' @ ''#gone''))), 0, 0)"
    using T h2 by blast
  have h3: "wfs_timeout \<lparr>wfs_timeout = Some (-1), visible = None, hidden = Some True\<rparr> = Some (-1) \<and>
            (-1::int) \<le> 0 \<and> 500 \<le> now \<lparr>now = 500, element = Inr None, isVisible = Inr False\<rparr>"
    by simp
  have d: "waitForSelector ''#gone'' \<lparr>wfs_timeout = Some (-1), visible = None, hidden = Some True\<rparr> 500
     [\<lparr>now = 500, element = Inr None, isVisible = Inr False\<rparr>] =
     (Some (Inl (Error (''Timeout waiting for selector: '' @ ''#gone''))), 0, 0)"
    using T h3 by blast
  have b: "selector_loop ''#menu'' 30000 False True 0
     [\<lparr>now = 0, element = Inr (Some 4), isVisible = Inr True\<rparr>,
      \<lparr>now = 100, element = Inr (Some 4), isVisible = Inr False\<rparr>] 0 0 =
     selector_loop ''#menu'' 30000 False True 0
       [\<lparr>now = 100, element = Inr (Some 4), isVisible = Inr False\<rparr>] (Suc 0) (Suc 0)"
    using T by simp
  show ?thesis using a b c d by simp
qed

text \<open>
  C6 as stated fails: with \<open>hidden\<close> set, a timeout of 0 and a selector that resolves to no
  element, the wait fails with its timeout error and makes no probe.
\<close>

theorem waitForSelector_hidden_counterexample:
  "waitForSelector ''#gone'' \<lparr>wfs_timeout = Some 0, visible = None, hidden = Some True\<rparr> 0
     [\<lparr>now = 0, element = Inr None, isVisible = Inr False\<rparr>] =
     (Some (Inl (Error ''Timeout waiting for selector: #gone'')), 0, 0)"
  by (simp add: waitForSelector_def timeout_of_def flag_def)

section \<open>Promises, slots and what holds them\<close>

lemma pget_settle:
  "pget (settle q v w) p =
     (if p = q \<and> q < length (promises w) \<and> pget w q = Pending then v else pget w p)"
  by (auto simp: pget_def settle_def)

lemma length_promises_settle [simp]: "length (promises (settle q v w)) = length (promises w)"
  by (simp add: settle_def)

lemma pget_fold_reject:
  "pget (fold (\<lambda>(i, q). reject q e) cbs w) p =
     (if p \<in> snd ` set cbs \<and> p < length (promises w) \<and> pget w p = Pending
      then Rejected e else pget w p)"
proof (induction cbs arbitrary: w)
  case Nil
  then show ?case by simp
next
  case (Cons c cbs)
  obtain i q where c: "c = (i, q)" by (cases c)
  show ?case
    using Cons.IH [of "reject q e w"] c
    by (auto simp: reject_def pget_settle)
qed

lemma close_fields:
  "callbacks (close w) = [] \<and> eventListeners (close w) = [] \<and> terminated (close w)"
  by (simp add: close_def)

lemma pget_close:
  "pget (close w) p =
     (if p \<in> snd ` set (callbacks w) \<and> p < length (promises w) \<and> pget w p = Pending
      then Rejected (Error ''Connection closed'') else pget w p)"
proof -
  have "pget (close w) p = pget (fold (\<lambda>(i, q). reject q (Error ''Connection closed'')) (callbacks w) w) p"
    by (simp add: close_def pget_def)
  then show ?thesis by (simp add: pget_fold_reject)
qed

lemma length_fold_reject:
  "length (promises (fold (\<lambda>(i, q). reject q e) cbs w)) = length (promises w)"
  by (induction cbs arbitrary: w) (auto simp: reject_def)

lemma owned_settle [simp]: "owned i p w \<Longrightarrow> q \<noteq> p \<Longrightarrow> owned i p (settle q v w)"
  by (simp add: owned_def settle_def)
lemma owned_resolve [simp]: "owned i p w \<Longrightarrow> q \<noteq> p \<Longrightarrow> owned i p (resolve q v w)"
  by (simp add: resolve_def)
lemma owned_reject [simp]: "owned i p w \<Longrightarrow> q \<noteq> p \<Longrightarrow> owned i p (reject q e w)"
  by (simp add: reject_def)
lemma owned_on [simp]: "owned i p w \<Longrightarrow> owned i p (on ev h w)"
  by (simp add: owned_def on_def split: option.splits)
lemma owned_off [simp]: "owned i p w \<Longrightarrow> owned i p (off ev h w)"
  by (simp add: owned_def off_def split: option.splits)

lemma timer_callbacks_clearTimeout [simp]:
  "map fst (timers (clearTimeout t w)) = map fst (timers w)"
  by (simp add: clearTimeout_def map_update list_update_same_conv)

lemma owned_clearTimeout [simp]: "owned i p w \<Longrightarrow> owned i p (clearTimeout t w)"
proof -
  have "clearTimeout t w = w\<lparr>timers := timers (clearTimeout t w)\<rparr>"
    by (simp add: clearTimeout_def)
  then have f: "promises (clearTimeout t w) = promises w" "callbacks (clearTimeout t w) = callbacks w"
    "idc (clearTimeout t w) = idc w" "closures (clearTimeout t w) = closures w"
    "tasks (clearTimeout t w) = tasks w" "queue (clearTimeout t w) = queue w"
    by (simp_all add: clearTimeout_def)
  assume "owned i p w"
  then show ?thesis
    unfolding owned_def f timer_callbacks_clearTimeout .
qed

lemma set_update_subset: "x \<in> set (AList.update k v al) \<Longrightarrow> x = (k, v) \<or> x \<in> set al"
  by (induction al) (auto split: if_splits)

lemma owned_send_body [simp]:
  "owned i p w \<Longrightarrow> q \<noteq> p \<Longrightarrow> owned i p (send_body m ps q w)"
  unfolding owned_def send_body_def Let_def
  by (auto simp: update_conv' dest!: set_update_subset)

lemma owned_append_promise [simp]:
  "owned i p w \<Longrightarrow> owned i p (w\<lparr>promises := promises w @ [v]\<rparr>)"
  by (simp add: owned_def nth_append)

lemma owned_send [simp]: "owned i p w \<Longrightarrow> owned i p (snd (send m ps w))"
proof -
  assume o: "owned i p w"
  then have ne: "length (promises w) \<noteq> p" by (auto simp: owned_def)
  have q: "owned i p (w\<lparr>promises := promises w @ [Pending], queue := queue w @ [(m, ps, length (promises w))]\<rparr>)"
    using o ne by (auto simp: owned_def nth_append)
  have b: "owned i p (send_body m ps (length (promises w)) (w\<lparr>promises := promises w @ [Pending]\<rparr>))"
    using o ne by simp
  show ?thesis
    using o q b by (simp add: send_def Let_def split: pstate.splits)
qed

lemma owned_fresh: "owned i p w \<Longrightarrow> length (promises w) \<noteq> p"
  by (auto simp: owned_def)

lemma owned_fold_send_body:
  "owned i p w \<Longrightarrow> \<forall>x \<in> set xs. snd (snd x) \<noteq> p \<Longrightarrow>
     owned i p (fold (\<lambda>(m, ps, q). send_body m ps q) xs w)"
  by (induction xs arbitrary: w) (auto)

lemma owned_fold_reject3:
  "owned i p w \<Longrightarrow> \<forall>x \<in> set xs. snd (snd x) \<noteq> p \<Longrightarrow>
     owned i p (fold (\<lambda>(m, ps, q). reject q e) xs w)"
  by (induction xs arbitrary: w) (auto)

lemma owned_ws_open [simp]: "owned i p w \<Longrightarrow> owned i p (ws_open w)"
proof -
  assume o: "owned i p w"
  have a: "owned i p (w\<lparr>ready := Fulfilled None, queue := []\<rparr>)"
    using o by (simp add: owned_def)
  have b: "\<forall>x \<in> set (queue w). snd (snd x) \<noteq> p"
    using o by (simp add: owned_def)
  show ?thesis
    using o owned_fold_send_body [OF a b] by (simp add: ws_open_def)
qed

lemma owned_ws_error [simp]: "owned i p w \<Longrightarrow> owned i p (ws_error w)"
proof -
  assume o: "owned i p w"
  have a: "owned i p (w\<lparr>ready := Rejected WebSocketError, queue := []\<rparr>)"
    using o by (simp add: owned_def)
  have b: "\<forall>x \<in> set (queue w). snd (snd x) \<noteq> p"
    using o by (simp add: owned_def)
  show ?thesis
    using o owned_fold_reject3 [OF a b] by (simp add: ws_error_def)
qed

lemma owned_sc [simp]: "owned i p (w\<lparr>sc := x\<rparr>) = owned i p w"
  by (simp add: owned_def)

lemma owned_frame_handler [simp]: "owned i p w \<Longrightarrow> owned i p (frame_handler params w)"
  by (simp add: frame_handler_def Let_def split: option.splits json.splits)

lemma owned_invoke:
  "owned i p w \<Longrightarrow> p \<notin> listener_targets c \<Longrightarrow> owned i p (snd (invoke h c params w))"
  by (cases c) (auto split: sum.splits bool.splits)

lemma owned_closure: "owned i p w \<Longrightarrow> h < length (closures w) \<Longrightarrow> p \<notin> listener_targets (closures w ! h)"
  by (simp add: owned_def)

lemma owned_fanout [simp]: "owned i p w \<Longrightarrow> owned i p (snd (fanout ev hs params w))"
proof (induction hs arbitrary: w)
  case Nil
  then show ?case by simp
next
  case (Cons h hs)
  show ?case
  proof (cases "h \<in> set (listeners_of ev w) \<and> h < length (closures w)")
    case False
    then show ?thesis using Cons by auto
  next
    case True
    obtain r w' where i: "invoke h (closures w ! h) params w = (r, w')"
      by (cases "invoke h (closures w ! h) params w")
    have o: "owned i p w'"
      using owned_invoke [OF Cons.prems owned_closure [OF Cons.prems], of h h params] True i
      by simp
    show ?thesis
    proof (cases r)
      case None
      then show ?thesis using True i Cons.IH [OF o] by simp
    next
      case (Some e)
      then show ?thesis using True i o by simp
    qed
  qed
qed

lemma owned_run_timer:
  "owned i p w \<Longrightarrow> timer_target cb \<noteq> p \<Longrightarrow> owned i p (run_timer cb w)"
  by (cases cb) auto

lemma owned_fire [simp]: "owned i p w \<Longrightarrow> owned i p (fire t w)"
proof -
  assume o: "owned i p w"
  show ?thesis
  proof (cases "t < length (timers w) \<and> snd (snd (timers w ! t))")
    case False
    then show ?thesis using o by (auto simp: fire_def)
  next
    case True
    then have "timers w ! t \<in> set (timers w)"
      by simp
    then have "timer_target (fst (timers w ! t)) \<noteq> p"
      using o by (auto simp: owned_def)
    then show ?thesis
      using o True by (simp add: fire_def owned_run_timer)
  qed
qed

lemma owned_loadPromise [simp]: "owned i p w \<Longrightarrow> owned i p (snd (loadPromise ev w))"
proof -
  assume o: "owned i p w"
  have "owned i p (w\<lparr>promises := promises w @ [Pending],
                     closures := closures w @ [LoadHandler ev (length (promises w))]\<rparr>)"
    using o by (auto simp: owned_def nth_append)
  then show ?thesis by (simp add: loadPromise_def Let_def)
qed

lemma owned_new_promise [simp]: "owned i p w \<Longrightarrow> owned i p (snd (new_promise v w))"
  by (simp add: new_promise_def)

lemma owned_add_task [simp]:
  "owned i p w \<Longrightarrow> (\<forall>k'. k = Some k' \<longrightarrow> task_target k' \<noteq> p) \<Longrightarrow> owned i p (add_task k w)"
  by (cases k) (auto simp: add_task_def owned_def)

lemma owned_race [simp]:
  "owned i p w \<Longrightarrow> rp \<noteq> p \<Longrightarrow> owned i p (snd (race lp tp t rp w))"
  by (simp add: race_def split: pstate.splits)

lemma race_target:
  "fst (race lp tp t rp w) = Some k \<Longrightarrow> task_target k = rp"
  by (auto simp: race_def split: pstate.splits)

lemma owned_arm_and_race [simp]:
  "owned i p w \<Longrightarrow> rp \<noteq> p \<Longrightarrow> owned i p (snd (arm_and_race lp tmo e rp w))"
proof -
  assume o: "owned i p w" and r: "rp \<noteq> p"
  have "owned i p (w\<lparr>promises := promises w @ [Pending],
                     timers := timers w @ [(NavTimer (length (promises w)) e, tmo, True)]\<rparr>)"
    using o by (auto simp: owned_def nth_append)
  then show ?thesis using r by (simp add: arm_and_race_def Let_def)
qed

lemma arm_and_race_target:
  "fst (arm_and_race lp tmo e rp w) = Some k \<Longrightarrow> task_target k = rp"
  by (simp add: arm_and_race_def Let_def race_target)

lemma new_promise_fst [simp]: "fst (new_promise v w) = length (promises w)"
  by (simp add: new_promise_def)

lemma length_promises_on [simp]: "length (promises (on ev h w)) = length (promises w)"
  by (simp add: on_def split: option.splits)

lemma length_promises_send: "length (promises (snd (send m ps w))) = Suc (length (promises w))"
  by (simp add: send_def send_body_def Let_def split: pstate.splits)

lemma length_promises_loadPromise:
  "length (promises (snd (loadPromise ev w))) = Suc (length (promises w))"
  by (simp add: loadPromise_def Let_def)

lemma owned_waitForNavigation [simp]:
  "owned i p w \<Longrightarrow> owned i p (snd (waitForNavigation opts w))"
proof -
  assume o: "owned i p w"
  let ?w1 = "snd (loadPromise (eventName opts) w)"
  let ?w2 = "snd (new_promise Pending ?w1)"
  let ?rp = "length (promises ?w1)"
  let ?r = "arm_and_race (fst (fst (loadPromise (eventName opts) w))) (timeout_of (timeout opts))
              (NavigationTimeout (timeout_of (timeout opts))) ?rp ?w2"
  have o1: "owned i p ?w1" using o by simp
  have ne: "?rp \<noteq> p" using owned_fresh [OF o1] .
  have o2: "owned i p ?w2" using o1 by simp
  have o3: "owned i p (snd ?r)" using o2 ne by simp
  have "owned i p (add_task (fst ?r) (snd ?r))"
    using o3 ne arm_and_race_target by (intro owned_add_task) auto
  then show ?thesis
    by (simp add: waitForNavigation_def Let_def split_beta)
qed

lemma owned_goto [simp]: "owned i p w \<Longrightarrow> owned i p (snd (goto url opts w))"
proof -
  assume o: "owned i p w"
  let ?w1 = "snd (loadPromise (eventName opts) w)"
  let ?w2 = "snd (send ''Page.navigate'' (JObj [(''url'', JStr url)]) ?w1)"
  have o2: "owned i p ?w2" using o by simp
  have ne: "length (promises ?w2) \<noteq> p" using owned_fresh [OF o2] .
  show ?thesis
    using o2 ne by (simp add: goto_def Let_def split_beta)
qed

lemma owned_reload [simp]: "owned i p w \<Longrightarrow> owned i p (snd (reload opts w))"
proof -
  assume o: "owned i p w"
  let ?w1 = "snd (loadPromise (eventName opts) w)"
  let ?w2 = "snd (send ''Page.reload'' (JObj []) ?w1)"
  have o2: "owned i p ?w2" using o by simp
  have ne: "length (promises ?w2) \<noteq> p" using owned_fresh [OF o2] .
  show ?thesis
    using o2 ne by (simp add: reload_def Let_def split_beta)
qed

lemma owned_network_wait [simp]:
  "owned i p w \<Longrightarrow> owned i p (snd (network_wait k u tmo w))"
proof -
  assume o: "owned i p w"
  have "owned i p (w\<lparr>promises := promises w @ [Pending],
          timers := timers w @ [(NetworkTimer k (length (closures w)) (length (promises w)),
                                 timeout_of tmo, True)],
          closures := closures w @ [NetworkHandler k u (length (timers w)) (length (promises w))]\<rparr>)"
    using o by (auto simp: owned_def nth_append)
  then show ?thesis by (simp add: network_wait_def Let_def)
qed

lemma owned_waitForResponse [simp]:
  "owned i p w \<Longrightarrow> owned i p (snd (waitForResponse u tmo w))"
  by (simp add: waitForResponse_def)

lemma owned_waitForRequest [simp]:
  "owned i p w \<Longrightarrow> owned i p (snd (waitForRequest u tmo w))"
  by (simp add: waitForRequest_def)

lemma owned_start [simp]: "owned i p w \<Longrightarrow> owned i p (snd (start w))"
proof -
  assume o: "owned i p w"
  show ?thesis
  proof (cases "recording (sc w)")
    case True
    then show ?thesis using o by (simp add: start_def)
  next
    case False
    let ?w1 = "w\<lparr>closures := closures w @ [FrameHandler],
                  sc := (sc w)\<lparr>frames := [], recording := True,
                                frameHandler := Some (length (closures w))\<rparr>\<rparr>"
    have o1: "owned i p ?w1" using o by (auto simp: owned_def)
    let ?ps = "JObj [(''format'', JStr (format (options (sc w)))),
                     (''quality'', JNum (quality (options (sc w)))),
                     (''maxWidth'', JNum (maxWidth (options (sc w)))),
                     (''maxHeight'', JNum (maxHeight (options (sc w)))),
                     (''everyNthFrame'', JNum (everyNthFrame (options (sc w))))]"
    let ?w2 = "snd (send ''Page.startScreencast'' ?ps
                      (on ''Page.screencastFrame'' (length (closures w)) ?w1))"
    have o2: "owned i p ?w2" using o1 by simp
    have ne: "length (promises ?w2) \<noteq> p" using owned_fresh [OF o2] .
    show ?thesis
      using False o2 ne by (simp add: start_def Let_def split_beta)
  qed
qed

lemma owned_stop [simp]: "owned i p w \<Longrightarrow> owned i p (snd (stop w))"
proof -
  assume o: "owned i p w"
  let ?w1 = "snd (send ''Page.stopScreencast'' (JObj []) w)"
  have o1: "owned i p ?w1" using o by simp
  have ne: "length (promises ?w1) \<noteq> p" using owned_fresh [OF o1] .
  show ?thesis
    using o o1 ne by (simp add: stop_def Let_def split_beta)
qed

lemma owned_stop_rest [simp]: "owned i p w \<Longrightarrow> rp \<noteq> p \<Longrightarrow> owned i p (stop_rest rp w)"
  by (cases "frameHandler (sc w)") (simp_all add: stop_rest_def Let_def)

lemma owned_resume:
  "owned i p w \<Longrightarrow> task_target k \<noteq> p \<Longrightarrow> owned i p (snd (resume k w))"
  by (cases k) (auto split: pstate.splits)

lemma resume_target: "fst (resume k w) = Some k' \<Longrightarrow> task_target k' = task_target k"
  by (cases k) (auto split: pstate.splits simp: race_target arm_and_race_target)

lemma owned_resume_all:
  "owned i p w \<Longrightarrow> \<forall>k \<in> set ks. task_target k \<noteq> p \<Longrightarrow>
     owned i p (snd (resume_all ks w)) \<and> (\<forall>k \<in> set (fst (resume_all ks w)). task_target k \<noteq> p)"
proof (induction ks arbitrary: w)
  case Nil
  then show ?case by simp
next
  case (Cons k ks)
  obtain r w1 where r: "resume k w = (r, w1)" by (cases "resume k w")
  obtain rs w2 where rs: "resume_all ks w1 = (rs, w2)" by (cases "resume_all ks w1")
  have o1: "owned i p w1"
    using owned_resume [OF Cons.prems(1), of k] Cons.prems(2) r by simp
  have t: "\<forall>k' . r = Some k' \<longrightarrow> task_target k' \<noteq> p"
    using resume_target [of k w] r Cons.prems(2) by auto
  have ih: "owned i p w2 \<and> (\<forall>k \<in> set rs. task_target k \<noteq> p)"
    using Cons.IH [OF o1] Cons.prems(2) rs by simp
  show ?case
    using r rs ih t by (auto split: option.splits)
qed

lemma owned_drain [simp]: "owned i p w \<Longrightarrow> owned i p (drain w)"
proof -
  assume o: "owned i p w"
  obtain ks w' where r: "resume_all (tasks w) w = (ks, w')"
    by (cases "resume_all (tasks w) w")
  have t: "\<forall>k \<in> set (tasks w). task_target k \<noteq> p" using o by (simp add: owned_def)
  have "owned i p w' \<and> (\<forall>k \<in> set ks. task_target k \<noteq> p)"
    using owned_resume_all [OF o t] r by simp
  then show ?thesis
    using r by (auto simp: drain_def owned_def)
qed

lemma set_delete_subset: "x \<in> set (AList.delete k al) \<Longrightarrow> x \<in> set al"
  by (induction al) (auto split: if_splits)

lemma owned_delete:
  "owned i p w \<Longrightarrow> k \<noteq> i \<Longrightarrow> owned i p (w\<lparr>callbacks := AList.delete k (callbacks w)\<rparr>)"
  by (auto simp: owned_def delete_conv' dest: set_delete_subset)

lemma owned_other_slot:
  assumes "owned i p w" and "map_of (callbacks w) k = Some q" and "k \<noteq> i"
  shows "q \<noteq> p"
proof
  assume "q = p"
  then have "(k, p) \<in> set (callbacks w)" using assms(2) by (simp add: map_of_SomeD)
  then show False using assms(1,3) by (auto simp: owned_def)
qed

lemma lookup_callback_Some:
  "lookup_callback v w = Some (k, q) \<Longrightarrow> v = JNum (int k) \<and> map_of (callbacks w) k = Some q"
  by (cases v) (auto split: if_splits)

lemma owned_handleMessage:
  assumes o: "owned i p w" and n: "\<not> carries_id i d"
  shows "owned i p (snd (handleMessage d w))"
proof (cases d)
  case None
  then show ?thesis using o by (simp add: handleMessage_def)
next
  case (Some msg)
  show ?thesis
  proof (cases "msg = JNull")
    case True
    then show ?thesis using o Some by (simp add: handleMessage_def)
  next
    case nn: False
    show ?thesis
    proof (cases "get_prop msg ''id''")
      case None
      then show ?thesis
        using o Some nn by (cases msg) (auto simp: handleMessage_def split: option.splits json.splits)
    next
      case (Some v)
      note v = Some
      show ?thesis
      proof (cases "lookup_callback v w")
        case None
        then show ?thesis
          using o \<open>d = Some msg\<close> nn v by (cases msg) (auto simp: handleMessage_def)
      next
        case (Some kq)
        obtain k q where kq: "kq = (k, q)" by (cases kq)
        have l: "v = JNum (int k) \<and> map_of (callbacks w) k = Some q"
          using lookup_callback_Some [of v w k q] Some kq by simp
        have ki: "k \<noteq> i" using n \<open>d = Some msg\<close> v l by auto
        have qp: "q \<noteq> p" using owned_other_slot [OF o _ ki] l by simp
        have od: "owned i p (w\<lparr>callbacks := AList.delete k (callbacks w)\<rparr>)"
          using owned_delete [OF o ki] .
        show ?thesis
          using \<open>d = Some msg\<close> nn v Some kq od qp
          by (cases msg) (auto simp: handleMessage_def Let_def split: option.splits)
      qed
    qed
  qed
qed

lemma settled_settle [simp]: "settled p v w \<Longrightarrow> settled p v (settle q v' w)"
  by (auto simp: settled_def settle_def nth_list_update)
lemma settled_resolve [simp]: "settled p v w \<Longrightarrow> settled p v (resolve q v' w)"
  by (simp add: resolve_def)
lemma settled_reject [simp]: "settled p v w \<Longrightarrow> settled p v (reject q e w)"
  by (simp add: reject_def)
lemma settled_on [simp]: "settled p v w \<Longrightarrow> settled p v (on ev h w)"
  by (simp add: settled_def on_def split: option.splits)
lemma settled_off [simp]: "settled p v w \<Longrightarrow> settled p v (off ev h w)"
  by (simp add: settled_def off_def split: option.splits)
lemma settled_clearTimeout [simp]: "settled p v w \<Longrightarrow> settled p v (clearTimeout t w)"
  by (simp add: settled_def clearTimeout_def)
lemma settled_send_body [simp]: "settled p v w \<Longrightarrow> settled p v (send_body m ps q w)"
  by (simp add: settled_def send_body_def Let_def)
lemma settled_append [simp]:
  "settled p v w \<Longrightarrow> settled p v (w\<lparr>promises := promises w @ [x]\<rparr>)"
  by (simp add: settled_def nth_append)
lemma settled_send [simp]: "settled p v w \<Longrightarrow> settled p v (snd (send m ps w))"
proof -
  assume o: "settled p v w"
  have q: "settled p v (w\<lparr>promises := promises w @ [Pending],
                          queue := queue w @ [(m, ps, length (promises w))]\<rparr>)"
    using o by (auto simp: settled_def nth_append)
  have b: "settled p v (send_body m ps (length (promises w)) (w\<lparr>promises := promises w @ [Pending]\<rparr>))"
    using o by simp
  show ?thesis
    using o q b by (simp add: send_def Let_def split: pstate.splits)
qed
lemma settled_fold_send_body:
  "settled p v w \<Longrightarrow> settled p v (fold (\<lambda>(m, ps, q). send_body m ps q) xs w)"
  by (induction xs arbitrary: w) (auto)
lemma settled_fold_reject3:
  "settled p v w \<Longrightarrow> settled p v (fold (\<lambda>(m, ps, q). reject q e) xs w)"
  by (induction xs arbitrary: w) (auto)
lemma settled_fold_reject:
  "settled p v w \<Longrightarrow> settled p v (fold (\<lambda>(i, q). reject q e) xs w)"
  by (induction xs arbitrary: w) (auto)
lemma settled_ws_open [simp]: "settled p v w \<Longrightarrow> settled p v (ws_open w)"
proof -
  assume o: "settled p v w"
  have a: "settled p v (w\<lparr>ready := Fulfilled None, queue := []\<rparr>)"
    using o by (simp add: settled_def)
  show ?thesis using o settled_fold_send_body [OF a, of "queue w"] by (simp add: ws_open_def)
qed
lemma settled_ws_error [simp]: "settled p v w \<Longrightarrow> settled p v (ws_error w)"
proof -
  assume o: "settled p v w"
  have a: "settled p v (w\<lparr>ready := Rejected WebSocketError, queue := []\<rparr>)"
    using o by (simp add: settled_def)
  show ?thesis using o settled_fold_reject3 [OF a, of WebSocketError "queue w"] by (simp add: ws_error_def)
qed
lemma settled_close [simp]: "settled p v w \<Longrightarrow> settled p v (close w)"
proof -
  assume o: "settled p v w"
  have "settled p v (fold (\<lambda>(i, q). reject q (Error ''Connection closed'')) (callbacks w) w)"
    using settled_fold_reject [OF o] .
  then show ?thesis by (simp add: close_def settled_def)
qed
lemma settled_sc [simp]: "settled p v (w\<lparr>sc := x\<rparr>) = settled p v w"
  by (simp add: settled_def)
lemma settled_frame_handler [simp]: "settled p v w \<Longrightarrow> settled p v (frame_handler params w)"
  by (simp add: frame_handler_def Let_def split: option.splits json.splits)
lemma settled_invoke [simp]: "settled p v w \<Longrightarrow> settled p v (snd (invoke h c params w))"
  by (cases c) (auto split: sum.splits bool.splits)
lemma settled_fanout [simp]: "settled p v w \<Longrightarrow> settled p v (snd (fanout ev hs params w))"
proof (induction hs arbitrary: w)
  case Nil
  then show ?case by simp
next
  case (Cons h hs)
  show ?case
  proof (cases "h \<in> set (listeners_of ev w) \<and> h < length (closures w)")
    case False
    then show ?thesis using Cons by auto
  next
    case True
    obtain r w' where i: "invoke h (closures w ! h) params w = (r, w')"
      by (cases "invoke h (closures w ! h) params w")
    have o: "settled p v w'"
      using settled_invoke [OF Cons.prems, of h "closures w ! h" params] i by simp
    show ?thesis
    proof (cases r)
      case None
      then show ?thesis using True i Cons.IH [OF o] by simp
    next
      case (Some e)
      then show ?thesis using True i o by simp
    qed
  qed
qed
lemma settled_callbacks [simp]: "settled p v (w\<lparr>callbacks := x\<rparr>) = settled p v w"
  by (simp add: settled_def)
lemma settled_handleMessage [simp]: "settled p v w \<Longrightarrow> settled p v (snd (handleMessage d w))"
  by (auto simp: handleMessage_def Let_def split: option.splits json.splits)
lemma settled_run_timer [simp]: "settled p v w \<Longrightarrow> settled p v (run_timer cb w)"
  by (cases cb) auto
lemma settled_fire [simp]: "settled p v w \<Longrightarrow> settled p v (fire t w)"
  by (auto simp: fire_def)
lemma settled_loadPromise [simp]: "settled p v w \<Longrightarrow> settled p v (snd (loadPromise ev w))"
proof -
  assume o: "settled p v w"
  have "settled p v (w\<lparr>promises := promises w @ [Pending],
                       closures := closures w @ [LoadHandler ev (length (promises w))]\<rparr>)"
    using o by (auto simp: settled_def nth_append)
  then show ?thesis by (simp add: loadPromise_def Let_def)
qed
lemma settled_new_promise [simp]: "settled p v w \<Longrightarrow> settled p v (snd (new_promise x w))"
  by (simp add: new_promise_def)
lemma settled_add_task [simp]: "settled p v (add_task k w) = settled p v w"
  by (cases k) (auto simp: add_task_def settled_def)
lemma settled_race [simp]: "settled p v w \<Longrightarrow> settled p v (snd (race lp tp t rp w))"
  by (simp add: race_def split: pstate.splits)
lemma settled_arm_and_race [simp]:
  "settled p v w \<Longrightarrow> settled p v (snd (arm_and_race lp tmo e rp w))"
proof -
  assume o: "settled p v w"
  have "settled p v (w\<lparr>promises := promises w @ [Pending],
                       timers := timers w @ [(NavTimer (length (promises w)) e, tmo, True)]\<rparr>)"
    using o by (auto simp: settled_def nth_append)
  then show ?thesis by (simp add: arm_and_race_def Let_def)
qed
lemma settled_waitForNavigation [simp]:
  "settled p v w \<Longrightarrow> settled p v (snd (waitForNavigation opts w))"
  by (simp add: waitForNavigation_def Let_def split_beta)
lemma settled_goto [simp]: "settled p v w \<Longrightarrow> settled p v (snd (goto url opts w))"
  by (simp add: goto_def Let_def split_beta)
lemma settled_reload [simp]: "settled p v w \<Longrightarrow> settled p v (snd (reload opts w))"
  by (simp add: reload_def Let_def split_beta)
lemma settled_network_wait [simp]:
  "settled p v w \<Longrightarrow> settled p v (snd (network_wait k u tmo w))"
proof -
  assume o: "settled p v w"
  have "settled p v (w\<lparr>promises := promises w @ [Pending],
          timers := timers w @ [(NetworkTimer k (length (closures w)) (length (promises w)),
                                 timeout_of tmo, True)],
          closures := closures w @ [NetworkHandler k u (length (timers w)) (length (promises w))]\<rparr>)"
    using o by (auto simp: settled_def nth_append)
  then show ?thesis by (simp add: network_wait_def Let_def)
qed

lemma settled_waitForResponse [simp]:
  "settled p v w \<Longrightarrow> settled p v (snd (waitForResponse u tmo w))"
  by (simp add: waitForResponse_def)

lemma settled_waitForRequest [simp]:
  "settled p v w \<Longrightarrow> settled p v (snd (waitForRequest u tmo w))"
  by (simp add: waitForRequest_def)

lemma settled_start [simp]: "settled p v w \<Longrightarrow> settled p v (snd (start w))"
proof -
  assume o: "settled p v w"
  have "settled p v (w\<lparr>closures := closures w @ [FrameHandler],
                       sc := (sc w)\<lparr>frames := [], recording := True,
                                     frameHandler := Some (length (closures w))\<rparr>\<rparr>)"
    using o by (auto simp: settled_def)
  then show ?thesis using o by (simp add: start_def Let_def split_beta)
qed
lemma settled_stop [simp]: "settled p v w \<Longrightarrow> settled p v (snd (stop w))"
  by (simp add: stop_def Let_def split_beta)
lemma settled_stop_rest [simp]: "settled p v w \<Longrightarrow> settled p v (stop_rest rp w)"
  by (cases "frameHandler (sc w)") (simp_all add: stop_rest_def Let_def)
lemma settled_resume [simp]: "settled p v w \<Longrightarrow> settled p v (snd (resume k w))"
  by (cases k) (auto split: pstate.splits)
lemma settled_resume_all [simp]: "settled p v w \<Longrightarrow> settled p v (snd (resume_all ks w))"
proof (induction ks arbitrary: w)
  case Nil
  then show ?case by simp
next
  case (Cons k ks)
  obtain r w1 where r: "resume k w = (r, w1)" by (cases "resume k w")
  obtain rs w2 where rs: "resume_all ks w1 = (rs, w2)" by (cases "resume_all ks w1")
  have o1: "settled p v w1" using settled_resume [OF Cons.prems, of k] r by simp
  have "settled p v w2" using Cons.IH [OF o1] rs by simp
  then show ?case using r rs by simp
qed
lemma settled_drain [simp]: "settled p v w \<Longrightarrow> settled p v (drain w)"
proof -
  assume o: "settled p v w"
  obtain ks w' where r: "resume_all (tasks w) w = (ks, w')"
    by (cases "resume_all (tasks w) w")
  have "settled p v w'" using settled_resume_all [OF o, of "tasks w"] r by simp
  then show ?thesis using r by (simp add: drain_def settled_def)
qed
lemma settled_call [simp]: "settled p v w \<Longrightarrow> settled p v (call e w)"
  by (cases e) (simp_all add: isRecording_def frameCount_def, simp add: settled_def)
lemma settled_step [simp]: "settled p v w \<Longrightarrow> settled p v (step e w)"
  by (simp add: step_def)
lemma settled_run: "settled p v w \<Longrightarrow> settled p v (run es w)"
  unfolding run_def by (induction es arbitrary: w) auto

lemma outcome_not_Pending [simp]: "outcome msg \<noteq> Pending"
  by (simp add: outcome_def)

lemma settled_pget: "settled p v w \<Longrightarrow> pget w p = v"
  by (simp add: settled_def pget_def)

lemma owned_pget: "owned i p w \<Longrightarrow> pget w p = Pending"
  by (simp add: owned_def pget_def)

lemma lookup_callback_own:
  "map_of (callbacks w) i = Some p \<Longrightarrow> lookup_callback (JNum (int i)) w = Some (i, p)"
  by simp

lemma answered:
  assumes o: "owned i p w" and c: "get_prop msg ''id'' = Some (JNum (int i))"
  shows "settled p (outcome msg) (snd (handleMessage (Some msg) w))"
proof -
  have nn: "msg \<noteq> JNull" using c by auto
  have m: "map_of (callbacks w) i = Some p" using o by (simp add: owned_def)
  have pp: "p < length (promises w) \<and> promises w ! p = Pending" using o by (simp add: owned_def)
  show ?thesis
    using nn c lookup_callback_own [OF m] pp
    by (cases msg)
      (auto simp: handleMessage_def Let_def outcome_def settled_def reject_def resolve_def
         settle_def split: option.splits)
qed

lemma closed_rejects:
  assumes o: "owned i p w"
  shows "settled p (Rejected (Error ''Connection closed'')) (close w)"
proof -
  have m: "(i, p) \<in> set (callbacks w)" using o by (simp add: owned_def map_of_SomeD)
  then have im: "p \<in> snd ` set (callbacks w)" by force
  have lt: "p < length (promises w)" using o by (simp add: owned_def)
  have pe: "pget w p = Pending" using owned_pget [OF o] .
  have r: "pget (close w) p = Rejected (Error ''Connection closed'')"
    using im lt pe by (simp add: pget_close)
  have l: "length (promises (close w)) = length (promises w)"
    by (simp add: close_def length_fold_reject)
  have "promises (close w) ! p = Rejected (Error ''Connection closed'')"
    using r l lt by (simp add: pget_def)
  then show ?thesis using l lt by (simp add: settled_def)
qed

lemma owned_call:
  assumes o: "owned i p w" and nc: "e \<noteq> CallClose"
    and nm: "\<forall>d. e = Message d \<longrightarrow> \<not> carries_id i d"
  shows "owned i p (call e w)"
proof (cases e)
  case (Message d)
  then show ?thesis using o nm owned_handleMessage [of i p w d] by simp
next
  case (Tick d)
  then show ?thesis using o by (simp add: owned_def)
next
  case CallClose
  then show ?thesis using nc by simp
qed (use o in \<open>simp_all add: isRecording_def frameCount_def\<close>)

lemma owned_step:
  assumes "owned i p w" and "e \<noteq> CallClose" and "\<forall>d. e = Message d \<longrightarrow> \<not> carries_id i d"
  shows "owned i p (step e w)"
  using owned_call [OF assms] by (simp add: step_def)

lemma run_Cons: "run (e # es) w = run es (step e w)"
  by (simp add: run_def)

lemma run_append: "run (es @ es') w = run es' (run es w)"
  by (simp add: run_def)

lemma owned_run:
  "owned i p w \<Longrightarrow> pget (run es w) p = settled_by i es"
proof (induction es arbitrary: w)
  case Nil
  then show ?case by (simp add: run_def owned_pget)
next
  case (Cons e es)
  show ?case
  proof (cases "e = CallClose")
    case True
    have "settled p (Rejected (Error ''Connection closed'')) (step e w)"
      using closed_rejects [OF Cons.prems] True by (simp add: step_def)
    then have "settled p (Rejected (Error ''Connection closed'')) (run es (step e w))"
      by (rule settled_run)
    then show ?thesis using True by (simp add: run_Cons settled_pget)
  next
    case nc: False
    show ?thesis
    proof (cases "\<exists>msg. e = Message (Some msg) \<and> get_prop msg ''id'' = Some (JNum (int i))")
      case True
      then obtain msg where e: "e = Message (Some msg)"
        and c: "get_prop msg ''id'' = Some (JNum (int i))" by blast
      have "settled p (outcome msg) (step e w)"
        using answered [OF Cons.prems c] e by (simp add: step_def)
      then have "settled p (outcome msg) (run es (step e w))"
        by (rule settled_run)
      then show ?thesis using e c by (simp add: run_Cons settled_pget)
    next
      case False
      then have nm: "\<forall>d. e = Message d \<longrightarrow> \<not> carries_id i d"
        by (metis carries_id.elims(2))
      have o: "owned i p (step e w)"
        using owned_step [OF Cons.prems nc nm] .
      have s: "settled_by i (e # es) = settled_by i es"
        using nc False by (cases e; cases "case e of Message d \<Rightarrow> d | _ \<Rightarrow> None") auto
      show ?thesis
        using Cons.IH [OF o] s by (simp add: run_Cons)
    qed
  qed
qed

lemma send_owned:
  assumes wf: "well_formed w" and r: "ready w = Fulfilled r"
  shows "owned (idc w + 1) (fst (send m ps w)) (snd (send m ps w))"
  using assms
  unfolding well_formed_def owned_def send_def send_body_def Let_def
  by (auto simp: nth_append update_conv' dest!: set_update_subset)

lemma send_settled_by:
  assumes "well_formed w" and "ready w = Fulfilled r"
  shows "pget (run es (snd (send m ps w))) (fst (send m ps w)) = settled_by (idc w + 1) es"
  using owned_run [OF send_owned [OF assms]] .

lemma wf_settle [simp]: "well_formed w \<Longrightarrow> well_formed (settle q v w)"
  by (simp add: well_formed_def settle_def)
lemma wf_resolve [simp]: "well_formed w \<Longrightarrow> well_formed (resolve q v w)"
  by (simp add: resolve_def)
lemma wf_reject [simp]: "well_formed w \<Longrightarrow> well_formed (reject q e w)"
  by (simp add: reject_def)
lemma wf_on [simp]: "well_formed w \<Longrightarrow> well_formed (on ev h w)"
  by (simp add: well_formed_def on_def split: option.splits)
lemma wf_off [simp]: "well_formed w \<Longrightarrow> well_formed (off ev h w)"
  by (simp add: well_formed_def off_def split: option.splits)
lemma wf_clearTimeout [simp]: "well_formed w \<Longrightarrow> well_formed (clearTimeout t w)"
proof -
  have f: "promises (clearTimeout t w) = promises w" "callbacks (clearTimeout t w) = callbacks w"
    "idc (clearTimeout t w) = idc w" "closures (clearTimeout t w) = closures w"
    "tasks (clearTimeout t w) = tasks w" "queue (clearTimeout t w) = queue w"
    by (simp_all add: clearTimeout_def)
  assume "well_formed w"
  then show ?thesis
    unfolding well_formed_def f timer_callbacks_clearTimeout .
qed
lemma wf_send_body [simp]:
  "well_formed w \<Longrightarrow> q < length (promises w) \<Longrightarrow> well_formed (send_body m ps q w)"
  unfolding well_formed_def send_body_def Let_def
  by (auto dest!: set_update_subset)
lemma wf_send [simp]: "well_formed w \<Longrightarrow> well_formed (snd (send m ps w))"
proof -
  assume o: "well_formed w"
  have a: "well_formed (w\<lparr>promises := promises w @ [x]\<rparr>)" for x
    using o by (auto simp: well_formed_def less_SucI)
  have q: "well_formed (w\<lparr>promises := promises w @ [Pending],
                          queue := queue w @ [(m, ps, length (promises w))]\<rparr>)"
    using o by (auto simp: well_formed_def less_SucI)
  have b: "well_formed (send_body m ps (length (promises w)) (w\<lparr>promises := promises w @ [Pending]\<rparr>))"
    using a by simp
  show ?thesis
    using a q b by (simp add: send_def Let_def split: pstate.splits)
qed
lemma wf_fold_send_body:
  "well_formed w \<Longrightarrow> \<forall>x \<in> set xs. snd (snd x) < length (promises w) \<Longrightarrow>
     well_formed (fold (\<lambda>(m, ps, q). send_body m ps q) xs w)"
proof (induction xs arbitrary: w)
  case Nil
  then show ?case by simp
next
  case (Cons x xs)
  obtain m ps q where x: "x = (m, ps, q)" by (cases x)
  have 1: "well_formed (send_body m ps q w)" using Cons.prems x by simp
  have 2: "length (promises (send_body m ps q w)) = length (promises w)"
    by (simp add: send_body_def Let_def)
  show ?case using Cons.IH [OF 1] Cons.prems(2) 2 x by simp
qed
lemma wf_fold_reject3:
  "well_formed w \<Longrightarrow> well_formed (fold (\<lambda>(m, ps, q). reject q e) xs w)"
  by (induction xs arbitrary: w) (auto)
lemma wf_fold_reject:
  "well_formed w \<Longrightarrow> well_formed (fold (\<lambda>(i, q). reject q e) xs w)"
  by (induction xs arbitrary: w) (auto)
lemma wf_ws_open [simp]: "well_formed w \<Longrightarrow> well_formed (ws_open w)"
proof -
  assume o: "well_formed w"
  have a: "well_formed (w\<lparr>ready := Fulfilled None, queue := []\<rparr>)"
    using o by (simp add: well_formed_def)
  have b: "\<forall>x \<in> set (queue w). snd (snd x) < length (promises (w\<lparr>ready := Fulfilled None, queue := []\<rparr>))"
    using o by (simp add: well_formed_def)
  show ?thesis using o wf_fold_send_body [OF a b] by (simp add: ws_open_def)
qed
lemma wf_ws_error [simp]: "well_formed w \<Longrightarrow> well_formed (ws_error w)"
proof -
  assume o: "well_formed w"
  have a: "well_formed (w\<lparr>ready := Rejected WebSocketError, queue := []\<rparr>)"
    using o by (simp add: well_formed_def)
  show ?thesis using o wf_fold_reject3 [OF a, of WebSocketError "queue w"] by (simp add: ws_error_def)
qed
lemma wf_close [simp]: "well_formed w \<Longrightarrow> well_formed (close w)"
proof -
  assume o: "well_formed w"
  have "well_formed (fold (\<lambda>(i, q). reject q (Error ''Connection closed'')) (callbacks w) w)"
    using wf_fold_reject [OF o] .
  then show ?thesis by (simp add: close_def well_formed_def)
qed
lemma wf_sc [simp]: "well_formed (w\<lparr>sc := x\<rparr>) = well_formed w"
  by (simp add: well_formed_def)
lemma wf_frame_handler [simp]: "well_formed w \<Longrightarrow> well_formed (frame_handler params w)"
  by (simp add: frame_handler_def Let_def split: option.splits json.splits)
lemma wf_invoke [simp]: "well_formed w \<Longrightarrow> well_formed (snd (invoke h c params w))"
  by (cases c) (auto split: sum.splits bool.splits)
lemma wf_fanout [simp]: "well_formed w \<Longrightarrow> well_formed (snd (fanout ev hs params w))"
proof (induction hs arbitrary: w)
  case Nil
  then show ?case by simp
next
  case (Cons h hs)
  show ?case
  proof (cases "h \<in> set (listeners_of ev w) \<and> h < length (closures w)")
    case False
    then show ?thesis using Cons by auto
  next
    case True
    obtain r w' where i: "invoke h (closures w ! h) params w = (r, w')"
      by (cases "invoke h (closures w ! h) params w")
    have o: "well_formed w'"
      using wf_invoke [OF Cons.prems, of h "closures w ! h" params] i by simp
    show ?thesis
    proof (cases r)
      case None
      then show ?thesis using True i Cons.IH [OF o] by simp
    next
      case (Some e)
      then show ?thesis using True i o by simp
    qed
  qed
qed
lemma wf_delete [simp]:
  "well_formed w \<Longrightarrow> well_formed (w\<lparr>callbacks := AList.delete k (callbacks w)\<rparr>)"
  by (auto simp: well_formed_def dest: set_delete_subset)
lemma wf_handleMessage [simp]: "well_formed w \<Longrightarrow> well_formed (snd (handleMessage d w))"
  by (auto simp: handleMessage_def Let_def split: option.splits json.splits)
lemma wf_run_timer [simp]: "well_formed w \<Longrightarrow> well_formed (run_timer cb w)"
  by (cases cb) auto
lemma wf_fire [simp]: "well_formed w \<Longrightarrow> well_formed (fire t w)"
  by (auto simp: fire_def)
lemma wf_loadPromise [simp]: "well_formed w \<Longrightarrow> well_formed (snd (loadPromise ev w))"
proof -
  assume o: "well_formed w"
  have "well_formed (w\<lparr>promises := promises w @ [Pending],
                       closures := closures w @ [LoadHandler ev (length (promises w))]\<rparr>)"
    using o by (auto simp: well_formed_def less_SucI)
  then show ?thesis by (simp add: loadPromise_def Let_def)
qed
lemma wf_new_promise [simp]: "well_formed w \<Longrightarrow> well_formed (snd (new_promise x w))"
  by (auto simp: new_promise_def well_formed_def less_SucI)
lemma wf_add_task [simp]:
  "well_formed w \<Longrightarrow> (\<forall>k'. k = Some k' \<longrightarrow> task_target k' < length (promises w)) \<Longrightarrow>
     well_formed (add_task k w)"
  by (cases k) (auto simp: add_task_def well_formed_def)
lemma length_promises_clearTimeout [simp]:
  "length (promises (clearTimeout t w)) = length (promises w)"
  by (simp add: clearTimeout_def)
lemma length_promises_race [simp]:
  "length (promises (snd (race lp tp t rp w))) = length (promises w)"
  by (simp add: race_def resolve_def reject_def split: pstate.splits)
lemma wf_race [simp]: "well_formed w \<Longrightarrow> well_formed (snd (race lp tp t rp w))"
  by (simp add: race_def split: pstate.splits)
lemma length_promises_arm_and_race [simp]:
  "length (promises (snd (arm_and_race lp tmo e rp w))) = Suc (length (promises w))"
  by (simp add: arm_and_race_def Let_def)
lemma wf_arm_and_race [simp]:
  "well_formed w \<Longrightarrow> well_formed (snd (arm_and_race lp tmo e rp w))"
proof -
  assume o: "well_formed w"
  have "well_formed (w\<lparr>promises := promises w @ [Pending],
                       timers := timers w @ [(NavTimer (length (promises w)) e, tmo, True)]\<rparr>)"
    using o by (auto simp: well_formed_def less_SucI)
  then show ?thesis by (simp add: arm_and_race_def Let_def)
qed

lemma length_promises_new_promise [simp]:
  "length (promises (snd (new_promise v w))) = Suc (length (promises w))"
  by (simp add: new_promise_def)

lemma wf_waitForNavigation [simp]:
  "well_formed w \<Longrightarrow> well_formed (snd (waitForNavigation opts w))"
proof -
  assume o: "well_formed w"
  let ?w1 = "snd (loadPromise (eventName opts) w)"
  let ?w2 = "snd (new_promise Pending ?w1)"
  let ?rp = "length (promises ?w1)"
  let ?r = "arm_and_race (fst (fst (loadPromise (eventName opts) w))) (timeout_of (timeout opts))
              (NavigationTimeout (timeout_of (timeout opts))) ?rp ?w2"
  have o3: "well_formed (snd ?r)" using o by simp
  have l: "?rp < length (promises (snd ?r))" by simp
  have "well_formed (add_task (fst ?r) (snd ?r))"
    using o3 l arm_and_race_target by (intro wf_add_task) auto
  then show ?thesis
    by (simp add: waitForNavigation_def Let_def split_beta)
qed

lemma wf_goto [simp]: "well_formed w \<Longrightarrow> well_formed (snd (goto url opts w))"
  by (simp add: goto_def Let_def split_beta)

lemma wf_reload [simp]: "well_formed w \<Longrightarrow> well_formed (snd (reload opts w))"
  by (simp add: reload_def Let_def split_beta)

lemma wf_network_wait [simp]:
  "well_formed w \<Longrightarrow> well_formed (snd (network_wait k u tmo w))"
proof -
  assume o: "well_formed w"
  have "well_formed (w\<lparr>promises := promises w @ [Pending],
          timers := timers w @ [(NetworkTimer k (length (closures w)) (length (promises w)),
                                 timeout_of tmo, True)],
          closures := closures w @ [NetworkHandler k u (length (timers w)) (length (promises w))]\<rparr>)"
    using o by (auto simp: well_formed_def nth_append less_SucI)
  then show ?thesis by (simp add: network_wait_def Let_def)
qed

lemma wf_waitForResponse [simp]:
  "well_formed w \<Longrightarrow> well_formed (snd (waitForResponse u tmo w))"
  by (simp add: waitForResponse_def)

lemma wf_waitForRequest [simp]:
  "well_formed w \<Longrightarrow> well_formed (snd (waitForRequest u tmo w))"
  by (simp add: waitForRequest_def)

lemma wf_start [simp]: "well_formed w \<Longrightarrow> well_formed (snd (start w))"
proof -
  assume o: "well_formed w"
  have "well_formed (w\<lparr>closures := closures w @ [FrameHandler],
                       sc := (sc w)\<lparr>frames := [], recording := True,
                                     frameHandler := Some (length (closures w))\<rparr>\<rparr>)"
    using o by (auto simp: well_formed_def)
  then show ?thesis using o by (simp add: start_def Let_def split_beta)
qed

lemma wf_stop [simp]: "well_formed w \<Longrightarrow> well_formed (snd (stop w))"
  by (simp add: stop_def Let_def split_beta)

lemma wf_stop_rest [simp]: "well_formed w \<Longrightarrow> well_formed (stop_rest rp w)"
  by (cases "frameHandler (sc w)") (simp_all add: stop_rest_def Let_def)

lemma wf_resume:
  "well_formed w \<Longrightarrow> well_formed (snd (resume k w))"
  by (cases k) (auto split: pstate.splits)

lemma length_promises_resume: "length (promises w) \<le> length (promises (snd (resume k w)))"
  by (cases k) (auto split: pstate.splits simp: resolve_def reject_def stop_rest_def Let_def
      off_def split: option.splits)

lemma wf_resume_all:
  "well_formed w \<Longrightarrow> \<forall>k \<in> set ks. task_target k < length (promises w) \<Longrightarrow>
     well_formed (snd (resume_all ks w)) \<and>
     (\<forall>k \<in> set (fst (resume_all ks w)). task_target k < length (promises (snd (resume_all ks w))))"
proof (induction ks arbitrary: w)
  case Nil
  then show ?case by simp
next
  case (Cons k ks)
  obtain r w1 where r: "resume k w = (r, w1)" by (cases "resume k w")
  obtain rs w2 where rs: "resume_all ks w1 = (rs, w2)" by (cases "resume_all ks w1")
  have o1: "well_formed w1" using wf_resume [OF Cons.prems(1), of k] r by simp
  have l1: "length (promises w) \<le> length (promises w1)"
    using length_promises_resume [of w k] r by simp
  have t1: "\<forall>k \<in> set ks. task_target k < length (promises w1)"
    using Cons.prems(2) l1 by auto
  have ih: "well_formed w2 \<and> (\<forall>k \<in> set rs. task_target k < length (promises w2))"
    using Cons.IH [OF o1 t1] rs by simp
  have l2: "length (promises w1) \<le> length (promises w2)"
    using rs
  proof (induction ks arbitrary: w1 rs w2)
    case Nil
    then show ?case by simp
  next
    case (Cons a ks)
    obtain r' w1' where r': "resume a w1 = (r', w1')" by (cases "resume a w1")
    obtain rs' w2' where rs': "resume_all ks w1' = (rs', w2')" by (cases "resume_all ks w1'")
    have "length (promises w1) \<le> length (promises w1')"
      using length_promises_resume [of w1 a] r' by simp
    moreover have "length (promises w1') \<le> length (promises w2')"
      using Cons.IH [OF rs'] .
    ultimately show ?case using Cons.prems r' rs' by simp
  qed
  have t: "\<forall>k'. r = Some k' \<longrightarrow> task_target k' < length (promises w2)"
    using resume_target [of k w] r Cons.prems(2) l1 l2 by auto
  show ?case
    using r rs ih t by (auto split: option.splits)
qed

lemma wf_drain [simp]: "well_formed w \<Longrightarrow> well_formed (drain w)"
proof -
  assume o: "well_formed w"
  obtain ks w' where r: "resume_all (tasks w) w = (ks, w')"
    by (cases "resume_all (tasks w) w")
  have t: "\<forall>k \<in> set (tasks w). task_target k < length (promises w)"
    using o by (simp add: well_formed_def)
  have "well_formed w' \<and> (\<forall>k \<in> set ks. task_target k < length (promises w'))"
    using wf_resume_all [OF o t] r by simp
  then show ?thesis
    using r by (auto simp: drain_def well_formed_def)
qed

lemma wf_call [simp]: "well_formed w \<Longrightarrow> well_formed (call e w)"
  by (cases e) (simp_all add: isRecording_def frameCount_def, simp add: well_formed_def)

lemma wf_step [simp]: "well_formed w \<Longrightarrow> well_formed (step e w)"
  by (simp add: step_def)

lemma wf_run: "well_formed w \<Longrightarrow> well_formed (run es w)"
  unfolding run_def by (induction es arbitrary: w) auto

lemma wf_new_session: "well_formed new_session"
  by (simp add: well_formed_def new_session_def)

lemma wf_reachable: "well_formed (run es new_session)"
  using wf_run [OF wf_new_session] .


section \<open>Calls made while the socket is connecting\<close>

lemma queued_append_promise [simp]:
  "queued i n p w \<Longrightarrow> queued i n p (w\<lparr>promises := promises w @ [v]\<rparr>)"
  by (simp add: queued_def nth_append)

lemma queued_send [simp]: "queued i n p w \<Longrightarrow> queued i n p (snd (send m ps w))"
  by (auto simp: queued_def send_def Let_def nth_append less_Suc_eq)

lemma queued_settle [simp]: "queued i n p w \<Longrightarrow> q \<noteq> p \<Longrightarrow> queued i n p (settle q v w)"
  by (simp add: queued_def settle_def)

lemma queued_resolve [simp]: "queued i n p w \<Longrightarrow> q \<noteq> p \<Longrightarrow> queued i n p (resolve q v w)"
  by (simp add: resolve_def)

lemma queued_reject [simp]: "queued i n p w \<Longrightarrow> q \<noteq> p \<Longrightarrow> queued i n p (reject q e w)"
  by (simp add: reject_def)

lemma queued_on [simp]: "queued i n p w \<Longrightarrow> queued i n p (on ev h w)"
  by (simp add: queued_def on_def split: option.splits)

lemma queued_off [simp]: "queued i n p w \<Longrightarrow> queued i n p (off ev h w)"
  by (simp add: queued_def off_def split: option.splits)

lemma queued_clearTimeout [simp]: "queued i n p w \<Longrightarrow> queued i n p (clearTimeout t w)"
proof -
  have "clearTimeout t w = w\<lparr>timers := timers (clearTimeout t w)\<rparr>"
    by (simp add: clearTimeout_def)
  then have f: "promises (clearTimeout t w) = promises w" "callbacks (clearTimeout t w) = callbacks w"
    "idc (clearTimeout t w) = idc w" "closures (clearTimeout t w) = closures w"
    "tasks (clearTimeout t w) = tasks w" "queue (clearTimeout t w) = queue w"
    "ready (clearTimeout t w) = ready w"
    by (simp_all add: clearTimeout_def)
  assume "queued i n p w"
  then show ?thesis
    unfolding queued_def f timer_callbacks_clearTimeout .
qed

lemma queued_fresh: "queued i n p w \<Longrightarrow> length (promises w) \<noteq> p"
  by (auto simp: queued_def)

lemma queued_sc [simp]: "queued i n p (w\<lparr>sc := x\<rparr>) = queued i n p w"
  by (simp add: queued_def)

lemma queued_frame_handler [simp]: "queued i n p w \<Longrightarrow> queued i n p (frame_handler params w)"
  by (simp add: frame_handler_def Let_def split: option.splits json.splits)

lemma queued_invoke:
  "queued i n p w \<Longrightarrow> p \<notin> listener_targets c \<Longrightarrow> queued i n p (snd (invoke h c params w))"
  by (cases c) (auto split: sum.splits bool.splits)

lemma queued_closure: "queued i n p w \<Longrightarrow> h < length (closures w) \<Longrightarrow> p \<notin> listener_targets (closures w ! h)"
  by (simp add: queued_def)

lemma queued_fanout [simp]: "queued i n p w \<Longrightarrow> queued i n p (snd (fanout ev hs params w))"
proof (induction hs arbitrary: w)
  case Nil
  then show ?case by simp
next
  case (Cons h hs)
  show ?case
  proof (cases "h \<in> set (listeners_of ev w) \<and> h < length (closures w)")
    case False
    then show ?thesis using Cons by auto
  next
    case True
    obtain r w' where i: "invoke h (closures w ! h) params w = (r, w')"
      by (cases "invoke h (closures w ! h) params w")
    have o: "queued i n p w'"
      using queued_invoke [OF Cons.prems queued_closure [OF Cons.prems], of h h params] True i
      by simp
    show ?thesis
    proof (cases r)
      case None
      then show ?thesis using True i Cons.IH [OF o] by simp
    next
      case (Some e)
      then show ?thesis using True i o by simp
    qed
  qed
qed

lemma queued_run_timer:
  "queued i n p w \<Longrightarrow> timer_target cb \<noteq> p \<Longrightarrow> queued i n p (run_timer cb w)"
  by (cases cb) auto

lemma queued_fire [simp]: "queued i n p w \<Longrightarrow> queued i n p (fire t w)"
proof -
  assume o: "queued i n p w"
  show ?thesis
  proof (cases "t < length (timers w) \<and> snd (snd (timers w ! t))")
    case False
    then show ?thesis using o by (auto simp: fire_def)
  next
    case True
    then have "timers w ! t \<in> set (timers w)"
      by simp
    then have "timer_target (fst (timers w ! t)) \<noteq> p"
      using o by (auto simp: queued_def)
    then show ?thesis
      using o True by (simp add: fire_def queued_run_timer)
  qed
qed

lemma queued_loadPromise [simp]: "queued i n p w \<Longrightarrow> queued i n p (snd (loadPromise ev w))"
proof -
  assume o: "queued i n p w"
  have "queued i n p (w\<lparr>promises := promises w @ [Pending],
                     closures := closures w @ [LoadHandler ev (length (promises w))]\<rparr>)"
    using o by (auto simp: queued_def nth_append)
  then show ?thesis by (simp add: loadPromise_def Let_def)
qed

lemma queued_new_promise [simp]: "queued i n p w \<Longrightarrow> queued i n p (snd (new_promise v w))"
  by (simp add: new_promise_def)

lemma queued_add_task [simp]:
  "queued i n p w \<Longrightarrow> (\<forall>k'. k = Some k' \<longrightarrow> task_target k' \<noteq> p) \<Longrightarrow> queued i n p (add_task k w)"
  by (cases k) (auto simp: add_task_def queued_def)

lemma queued_race [simp]:
  "queued i n p w \<Longrightarrow> rp \<noteq> p \<Longrightarrow> queued i n p (snd (race lp tp t rp w))"
  by (simp add: race_def split: pstate.splits)

lemma queued_arm_and_race [simp]:
  "queued i n p w \<Longrightarrow> rp \<noteq> p \<Longrightarrow> queued i n p (snd (arm_and_race lp tmo e rp w))"
proof -
  assume o: "queued i n p w" and r: "rp \<noteq> p"
  have "queued i n p (w\<lparr>promises := promises w @ [Pending],
                     timers := timers w @ [(NavTimer (length (promises w)) e, tmo, True)]\<rparr>)"
    using o by (auto simp: queued_def nth_append)
  then show ?thesis using r by (simp add: arm_and_race_def Let_def)
qed

lemma queued_waitForNavigation [simp]:
  "queued i n p w \<Longrightarrow> queued i n p (snd (waitForNavigation opts w))"
proof -
  assume o: "queued i n p w"
  let ?w1 = "snd (loadPromise (eventName opts) w)"
  let ?w2 = "snd (new_promise Pending ?w1)"
  let ?rp = "length (promises ?w1)"
  let ?r = "arm_and_race (fst (fst (loadPromise (eventName opts) w))) (timeout_of (timeout opts))
              (NavigationTimeout (timeout_of (timeout opts))) ?rp ?w2"
  have o1: "queued i n p ?w1" using o by simp
  have ne: "?rp \<noteq> p" using queued_fresh [OF o1] .
  have o2: "queued i n p ?w2" using o1 by simp
  have o3: "queued i n p (snd ?r)" using o2 ne by simp
  have "queued i n p (add_task (fst ?r) (snd ?r))"
    using o3 ne arm_and_race_target by (intro queued_add_task) auto
  then show ?thesis
    by (simp add: waitForNavigation_def Let_def split_beta)
qed

lemma queued_goto [simp]: "queued i n p w \<Longrightarrow> queued i n p (snd (goto url opts w))"
proof -
  assume o: "queued i n p w"
  let ?w1 = "snd (loadPromise (eventName opts) w)"
  let ?w2 = "snd (send ''Page.navigate'' (JObj [(''url'', JStr url)]) ?w1)"
  have o2: "queued i n p ?w2" using o by simp
  have ne: "length (promises ?w2) \<noteq> p" using queued_fresh [OF o2] .
  show ?thesis
    using o2 ne by (simp add: goto_def Let_def split_beta)
qed

lemma queued_reload [simp]: "queued i n p w \<Longrightarrow> queued i n p (snd (reload opts w))"
proof -
  assume o: "queued i n p w"
  let ?w1 = "snd (loadPromise (eventName opts) w)"
  let ?w2 = "snd (send ''Page.reload'' (JObj []) ?w1)"
  have o2: "queued i n p ?w2" using o by simp
  have ne: "length (promises ?w2) \<noteq> p" using queued_fresh [OF o2] .
  show ?thesis
    using o2 ne by (simp add: reload_def Let_def split_beta)
qed

lemma queued_network_wait [simp]:
  "queued i n p w \<Longrightarrow> queued i n p (snd (network_wait k u tmo w))"
proof -
  assume o: "queued i n p w"
  have "queued i n p (w\<lparr>promises := promises w @ [Pending],
          timers := timers w @ [(NetworkTimer k (length (closures w)) (length (promises w)),
                                 timeout_of tmo, True)],
          closures := closures w @ [NetworkHandler k u (length (timers w)) (length (promises w))]\<rparr>)"
    using o by (auto simp: queued_def nth_append)
  then show ?thesis by (simp add: network_wait_def Let_def)
qed

lemma queued_waitForResponse [simp]:
  "queued i n p w \<Longrightarrow> queued i n p (snd (waitForResponse u tmo w))"
  by (simp add: waitForResponse_def)

lemma queued_waitForRequest [simp]:
  "queued i n p w \<Longrightarrow> queued i n p (snd (waitForRequest u tmo w))"
  by (simp add: waitForRequest_def)

lemma queued_start [simp]: "queued i n p w \<Longrightarrow> queued i n p (snd (start w))"
proof -
  assume o: "queued i n p w"
  show ?thesis
  proof (cases "recording (sc w)")
    case True
    then show ?thesis using o by (simp add: start_def)
  next
    case False
    let ?w1 = "w\<lparr>closures := closures w @ [FrameHandler],
                  sc := (sc w)\<lparr>frames := [], recording := True,
                                frameHandler := Some (length (closures w))\<rparr>\<rparr>"
    have o1: "queued i n p ?w1" using o by (auto simp: queued_def)
    let ?ps = "JObj [(''format'', JStr (format (options (sc w)))),
                     (''quality'', JNum (quality (options (sc w)))),
                     (''maxWidth'', JNum (maxWidth (options (sc w)))),
                     (''maxHeight'', JNum (maxHeight (options (sc w)))),
                     (''everyNthFrame'', JNum (everyNthFrame (options (sc w))))]"
    let ?w2 = "snd (send ''Page.startScreencast'' ?ps
                      (on ''Page.screencastFrame'' (length (closures w)) ?w1))"
    have o2: "queued i n p ?w2" using o1 by simp
    have ne: "length (promises ?w2) \<noteq> p" using queued_fresh [OF o2] .
    show ?thesis
      using False o2 ne by (simp add: start_def Let_def split_beta)
  qed
qed

lemma queued_stop [simp]: "queued i n p w \<Longrightarrow> queued i n p (snd (stop w))"
proof -
  assume o: "queued i n p w"
  let ?w1 = "snd (send ''Page.stopScreencast'' (JObj []) w)"
  have o1: "queued i n p ?w1" using o by simp
  have ne: "length (promises ?w1) \<noteq> p" using queued_fresh [OF o1] .
  show ?thesis
    using o o1 ne by (simp add: stop_def Let_def split_beta)
qed

lemma queued_stop_rest [simp]: "queued i n p w \<Longrightarrow> rp \<noteq> p \<Longrightarrow> queued i n p (stop_rest rp w)"
  by (cases "frameHandler (sc w)") (simp_all add: stop_rest_def Let_def)

lemma queued_resume:
  "queued i n p w \<Longrightarrow> task_target k \<noteq> p \<Longrightarrow> queued i n p (snd (resume k w))"
  by (cases k) (auto split: pstate.splits)

lemma queued_resume_all:
  "queued i n p w \<Longrightarrow> \<forall>k \<in> set ks. task_target k \<noteq> p \<Longrightarrow>
     queued i n p (snd (resume_all ks w)) \<and> (\<forall>k \<in> set (fst (resume_all ks w)). task_target k \<noteq> p)"
proof (induction ks arbitrary: w)
  case Nil
  then show ?case by simp
next
  case (Cons k ks)
  obtain r w1 where r: "resume k w = (r, w1)" by (cases "resume k w")
  obtain rs w2 where rs: "resume_all ks w1 = (rs, w2)" by (cases "resume_all ks w1")
  have o1: "queued i n p w1"
    using queued_resume [OF Cons.prems(1), of k] Cons.prems(2) r by simp
  have t: "\<forall>k' . r = Some k' \<longrightarrow> task_target k' \<noteq> p"
    using resume_target [of k w] r Cons.prems(2) by auto
  have ih: "queued i n p w2 \<and> (\<forall>k \<in> set rs. task_target k \<noteq> p)"
    using Cons.IH [OF o1] Cons.prems(2) rs by simp
  show ?case
    using r rs ih t by (auto split: option.splits)
qed

lemma queued_drain [simp]: "queued i n p w \<Longrightarrow> queued i n p (drain w)"
proof -
  assume o: "queued i n p w"
  obtain ks w' where r: "resume_all (tasks w) w = (ks, w')"
    by (cases "resume_all (tasks w) w")
  have t: "\<forall>k \<in> set (tasks w). task_target k \<noteq> p" using o by (simp add: queued_def)
  have "queued i n p w' \<and> (\<forall>k \<in> set ks. task_target k \<noteq> p)"
    using queued_resume_all [OF o t] r by simp
  then show ?thesis
    using r by (auto simp: drain_def queued_def)
qed

lemma queued_delete:
  "queued i n p w \<Longrightarrow> queued i n p (w\<lparr>callbacks := AList.delete k (callbacks w)\<rparr>)"
  by (auto simp: queued_def dest: set_delete_subset)

lemma queued_slot:
  assumes "queued i n p w" and "map_of (callbacks w) k = Some q"
  shows "q \<noteq> p"
proof
  assume "q = p"
  then have "(k, p) \<in> set (callbacks w)" using assms(2) by (simp add: map_of_SomeD)
  then show False using assms(1) by (auto simp: queued_def)
qed

lemma queued_handleMessage:
  assumes o: "queued i n p w"
  shows "queued i n p (snd (handleMessage d w))"
proof (cases d)
  case None
  then show ?thesis using o by (simp add: handleMessage_def)
next
  case (Some msg)
  show ?thesis
  proof (cases "msg = JNull")
    case True
    then show ?thesis using o Some by (simp add: handleMessage_def)
  next
    case nn: False
    show ?thesis
    proof (cases "get_prop msg ''id''")
      case None
      then show ?thesis
        using o Some nn by (cases msg) (auto simp: handleMessage_def split: option.splits json.splits)
    next
      case (Some v)
      note v = Some
      show ?thesis
      proof (cases "lookup_callback v w")
        case None
        then show ?thesis
          using o \<open>d = Some msg\<close> nn v by (cases msg) (auto simp: handleMessage_def)
      next
        case (Some kq)
        obtain k q where kq: "kq = (k, q)" by (cases kq)
        have l: "v = JNum (int k) \<and> map_of (callbacks w) k = Some q"
          using lookup_callback_Some [of v w k q] Some kq by simp
        have qp: "q \<noteq> p" using queued_slot [OF o, of k q] l by blast
        have od: "queued i n p (w\<lparr>callbacks := AList.delete k (callbacks w)\<rparr>)"
          using queued_delete [OF o] .
        show ?thesis
          using \<open>d = Some msg\<close> nn v Some kq od qp
          by (cases msg) (auto simp: handleMessage_def Let_def split: option.splits)
      qed
    qed
  qed
qed

lemma queued_fold_reject:
  "queued i n p w \<Longrightarrow> \<forall>x \<in> set xs. snd x \<noteq> p \<Longrightarrow>
     queued i n p (fold (\<lambda>(j, q). reject q e) xs w)"
  by (induction xs arbitrary: w) (auto)

lemma queued_close: "queued i n p w \<Longrightarrow> queued i n p (close w)"
proof -
  assume o: "queued i n p w"
  have b: "\<forall>x \<in> set (callbacks w). snd x \<noteq> p" using o by (simp add: queued_def)
  have "queued i n p (fold (\<lambda>(j, q). reject q (Error ''Connection closed'')) (callbacks w) w)"
    using queued_fold_reject [OF o b] .
  then show ?thesis by (simp add: close_def queued_def)
qed

lemma queued_call:
  assumes o: "queued i n p w" and "e \<noteq> SocketOpen" and "e \<noteq> SocketError"
  shows "queued i n p (call e w)"
proof (cases e)
  case (Message d)
  then show ?thesis using o queued_handleMessage [of i n p w d] by simp
next
  case (Tick d)
  then show ?thesis using o by (simp add: queued_def)
next
  case CallClose
  then show ?thesis using o by (simp add: queued_close)
qed (use o assms in \<open>simp_all add: isRecording_def frameCount_def\<close>)

lemma queued_step:
  assumes "queued i n p w" and "e \<noteq> SocketOpen" and "e \<noteq> SocketError"
  shows "queued i n p (step e w)"
  using queued_call [OF assms] by (simp add: step_def)

lemma queued_run:
  "queued i n p w \<Longrightarrow> SocketOpen \<notin> set es \<Longrightarrow> SocketError \<notin> set es \<Longrightarrow>
     queued i n p (run es w)"
proof (induction es arbitrary: w)
  case Nil
  then show ?case by (simp add: run_def)
next
  case (Cons e es)
  have "queued i n p (step e w)"
    using queued_step [OF Cons.prems(1)] Cons.prems(2,3) by auto
  then show ?case using Cons.IH [of "step e w"] Cons.prems(2,3) by (simp add: run_Cons)
qed

lemma send_queued:
  assumes "well_formed w" and "ready w = Pending"
  shows "queued (idc w + length (queue w) + 1) (length (queue w)) (fst (send m ps w))
           (snd (send m ps w))"
proof -
  have "\<forall>j < length (queue w). snd (snd (queue w ! j)) < length (promises w)"
    using assms(1) by (simp add: well_formed_def)
  then have q: "\<forall>j < length (queue w). snd (snd (queue w ! j)) \<noteq> length (promises w)"
    by auto
  show ?thesis
    using assms q
    unfolding well_formed_def queued_def send_def Let_def
    by (auto simp: nth_append less_Suc_eq)
qed

lemma free_send_body:
  "free p w \<Longrightarrow> q \<noteq> p \<Longrightarrow> free p (send_body m ps q w)"
  unfolding free_def send_body_def Let_def
  by (auto dest!: set_update_subset)

lemma idc_send_body [simp]: "idc (send_body m ps q w) = idc w + 1"
  by (simp add: send_body_def Let_def)

lemma free_fold_send_body:
  "free p w \<Longrightarrow> \<forall>x \<in> set xs. snd (snd x) \<noteq> p \<Longrightarrow>
     free p (fold (\<lambda>(m, ps, q). send_body m ps q) xs w) \<and>
     idc (fold (\<lambda>(m, ps, q). send_body m ps q) xs w) = idc w + length xs"
proof (induction xs arbitrary: w)
  case Nil
  then show ?case by simp
next
  case (Cons x xs)
  obtain m ps q where x: "x = (m, ps, q)" by (cases x)
  have 1: "free p (send_body m ps q w)"
    using free_send_body [OF Cons.prems(1)] Cons.prems(2) x by simp
  show ?case
    using Cons.IH [OF 1] Cons.prems(2) x by simp
qed

lemma free_owned:
  "free p w \<Longrightarrow> owned (idc w + 1) p (send_body m ps p w)"
  unfolding free_def owned_def send_body_def Let_def
  by (auto simp: update_conv' dest!: set_update_subset)

lemma queued_open:
  assumes q: "queued i n p w"
  shows "owned i p (ws_open w)"
proof -
  let ?sb = "\<lambda>(m, ps, q). send_body m ps q"
  let ?w0 = "w\<lparr>ready := Fulfilled None, queue := []\<rparr>"
  let ?xs = "queue w"
  have n: "n < length ?xs" and pn: "snd (snd (?xs ! n)) = p"
    and u: "\<forall>j < length ?xs. snd (snd (?xs ! j)) = p \<longrightarrow> j = n"
    and r: "ready w = Pending" and i: "idc w + n + 1 = i"
    using q by (simp_all add: queued_def)
  have f0: "free p ?w0" using q by (simp add: queued_def free_def)
  have sp: "?xs = take n ?xs @ ?xs ! n # drop (Suc n) ?xs"
    using n by (simp add: id_take_nth_drop)
  have a: "\<forall>x \<in> set (take n ?xs). snd (snd x) \<noteq> p"
  proof
    fix x assume "x \<in> set (take n ?xs)"
    then obtain j where j: "j < n" "x = ?xs ! j"
      using n by (auto simp: in_set_conv_nth)
    then have "j < length ?xs" "j \<noteq> n" using n by auto
    then show "snd (snd x) \<noteq> p" using u j(2) by blast
  qed
  have b: "\<forall>x \<in> set (drop (Suc n) ?xs). snd (snd x) \<noteq> p"
  proof
    fix x assume "x \<in> set (drop (Suc n) ?xs)"
    then obtain j where j: "j < length ?xs - Suc n" "x = ?xs ! (Suc n + j)"
      by (auto simp: in_set_conv_nth)
    then have "Suc n + j < length ?xs" "Suc n + j \<noteq> n" by auto
    then show "snd (snd x) \<noteq> p" using u j(2) by blast
  qed
  let ?w1 = "fold ?sb (take n ?xs) ?w0"
  have f1: "free p ?w1 \<and> idc ?w1 = idc ?w0 + length (take n ?xs)"
    using free_fold_send_body [OF f0 a] .
  then have i1: "idc ?w1 + 1 = i" using n i by simp
  obtain m ps where x: "?xs ! n = (m, ps, p)"
    using pn by (cases "?xs ! n") auto
  let ?w2 = "send_body m ps p ?w1"
  have o2: "owned i p ?w2" using free_owned [of p ?w1 m ps] f1 i1 by simp
  have o3: "owned i p (fold ?sb (drop (Suc n) ?xs) ?w2)"
    using owned_fold_send_body [OF o2 b] .
  have "fold ?sb ?xs ?w0 = fold ?sb (drop (Suc n) ?xs) ?w2"
    by (subst sp) (simp add: x)
  then show ?thesis using o3 r by (simp add: ws_open_def)
qed

lemma pget_fold_reject3:
  "pget (fold (\<lambda>(m, ps, q). reject q e) xs w) p =
     (if p \<in> (snd \<circ> snd) ` set xs \<and> p < length (promises w) \<and> pget w p = Pending
      then Rejected e else pget w p)"
proof (induction xs arbitrary: w)
  case Nil
  then show ?case by simp
next
  case (Cons x xs)
  obtain m ps q where x: "x = (m, ps, q)" by (cases x)
  show ?case
    using Cons.IH [of "reject q e w"] x
    by (auto simp: reject_def pget_settle)
qed

lemma length_fold_reject3:
  "length (promises (fold (\<lambda>(m, ps, q). reject q e) xs w)) = length (promises w)"
  by (induction xs arbitrary: w) (auto simp: reject_def)

lemma queued_error:
  assumes q: "queued i n p w"
  shows "settled p (Rejected WebSocketError) (ws_error w)"
proof -
  let ?w0 = "w\<lparr>ready := Rejected WebSocketError, queue := []\<rparr>"
  have n: "n < length (queue w)" and pn: "snd (snd (queue w ! n)) = p"
    and lt: "p < length (promises w)" and pe: "promises w ! p = Pending"
    and r: "ready w = Pending"
    using q by (simp_all add: queued_def)
  have "queue w ! n \<in> set (queue w)" using n by simp
  then have im: "p \<in> (snd \<circ> snd) ` set (queue w)" using pn by force
  have p0: "pget ?w0 p = Pending" "p < length (promises ?w0)"
    using lt pe by (simp_all add: pget_def)
  let ?w1 = "fold (\<lambda>(m, ps, q). reject q WebSocketError) (queue w) ?w0"
  have r1: "pget ?w1 p = Rejected WebSocketError"
    using im p0 by (simp add: pget_fold_reject3)
  have l1: "length (promises ?w1) = length (promises w)"
    by (simp add: length_fold_reject3)
  have "promises ?w1 ! p = Rejected WebSocketError"
    using r1 l1 lt by (simp add: pget_def)
  then have "settled p (Rejected WebSocketError) ?w1"
    using l1 lt by (simp add: settled_def)
  then show ?thesis
    using r by (simp add: ws_error_def)
qed

lemma queued_then_open:
  assumes q: "queued i n p w" and o: "SocketOpen \<notin> set es1" and e: "SocketError \<notin> set es1"
  shows "pget (run (es1 @ SocketOpen # es2) w) p = settled_by i es2"
    and "pget (run (es1 @ SocketError # es2) w) p = Rejected WebSocketError"
proof -
  have q1: "queued i n p (run es1 w)" using queued_run [OF q o e] .
  have "owned i p (step SocketOpen (run es1 w))"
    using queued_open [OF q1] by (simp add: step_def)
  then show "pget (run (es1 @ SocketOpen # es2) w) p = settled_by i es2"
    using owned_run by (simp add: run_append run_Cons)
  have "settled p (Rejected WebSocketError) (step SocketError (run es1 w))"
    using queued_error [OF q1] by (simp add: step_def)
  then have "settled p (Rejected WebSocketError) (run es2 (step SocketError (run es1 w)))"
    by (rule settled_run)
  then show "pget (run (es1 @ SocketError # es2) w) p = Rejected WebSocketError"
    by (simp add: run_append run_Cons settled_pget)
qed

lemma queued_pending:
  assumes q: "queued i n p w" and o: "SocketOpen \<notin> set es1" and e: "SocketError \<notin> set es1"
  shows "pget (run es1 w) p = Pending"
  using queued_run [OF q o e] by (simp add: queued_def pget_def)


section \<open>The two halves of send\<close>

lemma send_slot:
  assumes "ready w = Fulfilled r"
  shows "map_of (callbacks (snd (send m ps w))) (idc w + 1) = Some (fst (send m ps w))"
  using assms by (simp add: send_def send_body_def Let_def update_conv')

lemma send_terminated:
  assumes "ready w = Fulfilled r" and "terminated w"
  shows "outbox (snd (send m ps w)) = outbox w"
  using assms by (simp add: send_def send_body_def Let_def)

lemma send_await_fst [simp]: "fst (send_await m ps w) = length (promises w)"
  by (simp add: send_await_def Let_def)

lemma send_connecting:
  "ready w = Pending \<Longrightarrow> send m ps w = send_await m ps w"
  by (simp add: send_def send_await_def Let_def)

lemma ready_microtasks_connecting [simp]:
  "ready w = Pending \<Longrightarrow> ready_microtasks w = w"
  by (simp add: ready_microtasks_def)

lemma send_turn:
  assumes "flushed w"
  shows "send m ps w = (fst (send_await m ps w), ready_microtasks (snd (send_await m ps w)))"
proof (cases "ready w")
  case Pending
  then show ?thesis by (simp add: send_def send_await_def Let_def)
next
  case (Fulfilled v)
  then have q: "queue w = []" using assms by (simp add: flushed_def)
  have e: "w\<lparr>promises := promises w @ [Pending], queue := []\<rparr> = w\<lparr>promises := promises w @ [Pending]\<rparr>"
    using q by simp
  show ?thesis
    using Fulfilled q by (simp add: send_def send_await_def ready_microtasks_def Let_def e)
next
  case (Rejected e)
  then have q: "queue w = []" using assms by (simp add: flushed_def)
  have e: "w\<lparr>promises := promises w @ [Rejected e], queue := []\<rparr> = w\<lparr>promises := promises w @ [Rejected e]\<rparr>"
    using q by simp
  show ?thesis
    using Rejected q
    by (simp add: send_def send_await_def ready_microtasks_def Let_def reject_def settle_def e)
qed

lemma fl_settle [simp]: "flushed (settle q v w) = flushed w"
  by (simp add: flushed_def settle_def)
lemma fl_resolve [simp]: "flushed (resolve q v w) = flushed w"
  by (simp add: resolve_def)
lemma fl_reject [simp]: "flushed (reject q e w) = flushed w"
  by (simp add: reject_def)
lemma fl_on [simp]: "flushed (on ev h w) = flushed w"
  by (simp add: flushed_def on_def split: option.splits)
lemma fl_off [simp]: "flushed (off ev h w) = flushed w"
  by (simp add: flushed_def off_def split: option.splits)
lemma fl_clearTimeout [simp]: "flushed (clearTimeout t w) = flushed w"
  by (simp add: flushed_def clearTimeout_def)
lemma fl_send_body [simp]: "flushed (send_body m ps q w) = flushed w"
  by (simp add: flushed_def send_body_def Let_def)
lemma fl_send [simp]: "flushed (snd (send m ps w)) = flushed w"
  by (cases "ready w") (simp_all add: send_def Let_def flushed_def send_body_def)

lemma queue_fold_send_body [simp]:
  "queue (fold (\<lambda>(m, ps, q). send_body m ps q) xs w) = queue w"
proof (induction xs arbitrary: w)
  case Nil
  then show ?case by simp
next
  case (Cons x xs)
  obtain a b q where x: "x = (a, b, q)" by (cases x)
  show ?case using Cons.IH [of "send_body a b q w"] x by (simp add: send_body_def Let_def)
qed

lemma queue_fold_reject3 [simp]:
  "queue (fold (\<lambda>(m, ps, q). reject q e) xs w) = queue w"
proof (induction xs arbitrary: w)
  case Nil
  then show ?case by simp
next
  case (Cons x xs)
  obtain a b q where x: "x = (a, b, q)" by (cases x)
  show ?case using Cons.IH [of "reject q e w"] x by (simp add: reject_def settle_def)
qed

lemma fl_fold_reject:
  "flushed (fold (\<lambda>(i, q). reject q e) xs w) = flushed w"
proof (induction xs arbitrary: w)
  case Nil
  then show ?case by simp
next
  case (Cons x xs)
  obtain a q where x: "x = (a, q)" by (cases x)
  show ?case using Cons.IH [of "reject q e w"] x by simp
qed

lemma fl_ws_open [simp]: "flushed w \<Longrightarrow> flushed (ws_open w)"
  by (auto simp: ws_open_def flushed_def)

lemma fl_ws_error [simp]: "flushed w \<Longrightarrow> flushed (ws_error w)"
  by (auto simp: ws_error_def flushed_def)

lemma fl_close [simp]: "flushed w \<Longrightarrow> flushed (close w)"
proof -
  assume r: "flushed w"
  have "flushed (fold (\<lambda>(i, q). reject q (Error ''Connection closed'')) (callbacks w) w)"
    using r by (simp add: fl_fold_reject)
  then show ?thesis by (simp add: close_def flushed_def)
qed

lemma fl_sc [simp]: "flushed (w\<lparr>sc := x\<rparr>) = flushed w"
  by (simp add: flushed_def)

lemma fl_frame_handler [simp]: "flushed (frame_handler params w) = flushed w"
  by (simp add: frame_handler_def Let_def split: option.splits json.splits)

lemma fl_invoke [simp]: "flushed w \<Longrightarrow> flushed (snd (invoke h c params w))"
  by (cases c) (auto split: sum.splits bool.splits)

lemma fl_fanout [simp]: "flushed w \<Longrightarrow> flushed (snd (fanout ev hs params w))"
proof (induction hs arbitrary: w)
  case Nil
  then show ?case by simp
next
  case (Cons h hs)
  show ?case
  proof (cases "h \<in> set (listeners_of ev w) \<and> h < length (closures w)")
    case False
    then show ?thesis using Cons by auto
  next
    case True
    obtain r w' where i: "invoke h (closures w ! h) params w = (r, w')"
      by (cases "invoke h (closures w ! h) params w")
    have o: "flushed w'"
      using fl_invoke [OF Cons.prems, of h "closures w ! h" params] i by simp
    show ?thesis
    proof (cases r)
      case None
      then show ?thesis using True i Cons.IH [OF o] by simp
    next
      case (Some e)
      then show ?thesis using True i o by simp
    qed
  qed
qed

lemma fl_callbacks [simp]: "flushed (w\<lparr>callbacks := x\<rparr>) = flushed w"
  by (simp add: flushed_def)

lemma fl_handleMessage [simp]: "flushed w \<Longrightarrow> flushed (snd (handleMessage d w))"
  by (auto simp: handleMessage_def Let_def split: option.splits json.splits)

lemma fl_run_timer [simp]: "flushed w \<Longrightarrow> flushed (run_timer cb w)"
  by (cases cb) auto

lemma fl_fire [simp]: "flushed w \<Longrightarrow> flushed (fire t w)"
  by (auto simp: fire_def)

lemma fl_promises [simp]: "flushed (w\<lparr>promises := x\<rparr>) = flushed w"
  by (simp add: flushed_def)
lemma fl_closures [simp]: "flushed (w\<lparr>closures := x\<rparr>) = flushed w"
  by (simp add: flushed_def)
lemma fl_timers [simp]: "flushed (w\<lparr>timers := x\<rparr>) = flushed w"
  by (simp add: flushed_def)
lemma fl_tasks [simp]: "flushed (w\<lparr>tasks := x\<rparr>) = flushed w"
  by (simp add: flushed_def)
lemma fl_clock [simp]: "flushed (w\<lparr>clock := x\<rparr>) = flushed w"
  by (simp add: flushed_def)

lemma fl_loadPromise [simp]: "flushed (snd (loadPromise ev w)) = flushed w"
  by (simp add: loadPromise_def Let_def)

lemma fl_new_promise [simp]: "flushed (snd (new_promise x w)) = flushed w"
  by (simp add: new_promise_def)

lemma fl_add_task [simp]: "flushed (add_task k w) = flushed w"
  by (cases k) (simp_all add: add_task_def)

lemma fl_race [simp]: "flushed (snd (race lp tp t rp w)) = flushed w"
  by (simp add: race_def split: pstate.splits)

lemma fl_arm_and_race [simp]: "flushed (snd (arm_and_race lp tmo e rp w)) = flushed w"
  by (simp add: arm_and_race_def Let_def)

lemma fl_waitForNavigation [simp]: "flushed (snd (waitForNavigation opts w)) = flushed w"
  by (simp add: waitForNavigation_def Let_def split_beta)

lemma fl_goto [simp]: "flushed (snd (goto url opts w)) = flushed w"
  by (simp add: goto_def Let_def split_beta)

lemma fl_reload [simp]: "flushed (snd (reload opts w)) = flushed w"
  by (simp add: reload_def Let_def split_beta)

lemma fl_network_wait [simp]: "flushed (snd (network_wait k u tmo w)) = flushed w"
  by (simp add: network_wait_def Let_def)

lemma fl_start [simp]: "flushed (snd (start w)) = flushed w"
  by (simp add: start_def Let_def split_beta)

lemma fl_stop [simp]: "flushed (snd (stop w)) = flushed w"
  by (simp add: stop_def Let_def split_beta)

lemma fl_stop_rest [simp]: "flushed (stop_rest rp w) = flushed w"
  by (cases "frameHandler (sc w)") (simp_all add: stop_rest_def Let_def)

lemma fl_resume [simp]: "flushed (snd (resume k w)) = flushed w"
  by (cases k) (auto split: pstate.splits)

lemma fl_resume_all [simp]: "flushed (snd (resume_all ks w)) = flushed w"
proof (induction ks arbitrary: w)
  case Nil
  then show ?case by simp
next
  case (Cons k ks)
  obtain r w1 where r: "resume k w = (r, w1)" by (cases "resume k w")
  obtain rs w2 where rs: "resume_all ks w1 = (rs, w2)" by (cases "resume_all ks w1")
  have "flushed w1 = flushed w" using fl_resume [of k w] r by simp
  moreover have "flushed w2 = flushed w1" using Cons.IH [of w1] rs by simp
  ultimately show ?case using r rs by simp
qed

lemma fl_drain [simp]: "flushed (drain w) = flushed w"
proof -
  obtain ks w' where r: "resume_all (tasks w) w = (ks, w')"
    by (cases "resume_all (tasks w) w")
  have "flushed w' = flushed w" using fl_resume_all [of "tasks w" w] r by simp
  then show ?thesis using r by (simp add: drain_def)
qed

lemma fl_call [simp]: "flushed w \<Longrightarrow> flushed (call e w)"
  by (cases e) (simp_all add: isRecording_def frameCount_def waitForResponse_def waitForRequest_def)

lemma fl_step [simp]: "flushed w \<Longrightarrow> flushed (step e w)"
  by (simp add: step_def)

lemma fl_run: "flushed w \<Longrightarrow> flushed (run es w)"
  unfolding run_def by (induction es arbitrary: w) auto

lemma fl_reachable: "flushed (run es new_session)"
  using fl_run [of new_session es] by (simp add: flushed_def new_session_def)

lemma send_turn_reachable:
  "send m ps (run es new_session) =
     (fst (send_await m ps (run es new_session)),
      ready_microtasks (snd (send_await m ps (run es new_session))))"
  using send_turn [OF fl_reachable] .

lemma step_CallSend:
  "step (CallSend m ps) (run es new_session) =
     drain (ready_microtasks (snd (send_await m ps (run es new_session))))"
  by (simp add: step_def send_turn_reachable)

lemma fields_fold_reject [simp]:
  "ready (fold (\<lambda>(i, q). reject q e) xs w) = ready w"
  "queue (fold (\<lambda>(i, q). reject q e) xs w) = queue w"
  "idc (fold (\<lambda>(i, q). reject q e) xs w) = idc w"
  "closures (fold (\<lambda>(i, q). reject q e) xs w) = closures w"
  "timers (fold (\<lambda>(i, q). reject q e) xs w) = timers w"
  "tasks (fold (\<lambda>(i, q). reject q e) xs w) = tasks w"
  "outbox (fold (\<lambda>(i, q). reject q e) xs w) = outbox w"
  by (induction xs arbitrary: w) (auto simp: reject_def settle_def)

lemma close_keeps [simp]:
  "ready (close w) = ready w" "queue (close w) = queue w" "idc (close w) = idc w"
  "closures (close w) = closures w" "timers (close w) = timers w" "tasks (close w) = tasks w"
  "outbox (close w) = outbox w"
  "length (promises (close w)) = length (promises w)"
  by (simp_all add: close_def length_fold_reject)

lemma callbacks_reject [simp]: "callbacks (reject q e w) = callbacks w"
  by (simp add: reject_def settle_def)

lemma callbacks_fold_reject3 [simp]:
  "callbacks (fold (\<lambda>(m, ps, q). reject q e) xs w) = callbacks w"
proof (induction xs arbitrary: w)
  case Nil
  then show ?case by simp
next
  case (Cons x xs)
  obtain a b q where x: "x = (a, b, q)" by (cases x)
  show ?case using Cons.IH [of "reject q e w"] x by simp
qed

text \<open>A call made on an open socket, and the microtask in which it goes on.\<close>

lemma open_turn_owned:
  assumes wf: "well_formed w" and r: "ready w = Fulfilled r" and f: "flushed w"
  shows "owned (idc w + 1) (fst (send_await m ps w)) (ready_microtasks (snd (send_await m ps w)))"
  using send_owned [OF wf r, of m ps] send_turn [OF f, of m ps] by simp

lemma open_turn_slot:
  assumes r: "ready w = Fulfilled r" and f: "flushed w"
  shows "map_of (callbacks (ready_microtasks (snd (send_await m ps w)))) (idc w + 1) =
           Some (fst (send_await m ps w))"
  using send_slot [OF r, of m ps] send_turn [OF f, of m ps] by simp

lemma open_turn_terminated:
  assumes r: "ready w = Fulfilled r" and t: "terminated w" and f: "flushed w"
  shows "outbox (ready_microtasks (snd (send_await m ps w))) = outbox w"
  using send_terminated [OF r t, of m ps] send_turn [OF f, of m ps] by simp

lemma open_turn_run:
  assumes wf: "well_formed w" and r: "ready w = Fulfilled r" and f: "flushed w"
  shows "pget (run es (drain (ready_microtasks (snd (send_await m ps w))))) (fst (send_await m ps w)) =
           settled_by (idc w + 1) es"
  using owned_run [OF owned_drain [OF open_turn_owned [OF assms]]] .

text \<open>A call and a \<open>close\<close> in one turn of the event loop, on an open socket.\<close>

lemma same_turn_pending:
  assumes wf: "well_formed w"
  shows "pget (close (snd (send_await m ps w))) (length (promises w)) = Pending"
proof -
  have "\<forall>x \<in> set (callbacks w). snd x < length (promises w)"
    using wf by (simp add: well_formed_def)
  then have "length (promises w) \<notin> snd ` set (callbacks w)" by auto
  then have b: "length (promises w) \<notin> snd ` set (callbacks (snd (send_await m ps w)))"
    by (simp add: send_await_def Let_def)
  have a: "pget (snd (send_await m ps w)) (length (promises w)) = Pending"
    by (simp add: send_await_def Let_def pget_def)
  show ?thesis
    using a b by (simp add: pget_close)
qed

lemma same_turn_owned:
  assumes wf: "well_formed w" and r: "ready w = Fulfilled r" and f: "flushed w"
  shows "owned (idc w + 1) (length (promises w))
           (ready_microtasks (close (snd (send_await m ps w))))"
proof -
  let ?p = "length (promises w)"
  let ?x = "close (snd (send_await m ps w))"
  have q: "queue w = []" using r f by (simp add: flushed_def)
  have qx: "queue ?x = [(m, ps, ?p)]" using q by (simp add: send_await_def Let_def)
  have rx: "ready ?x = Fulfilled r" using r by (simp add: send_await_def Let_def)
  have lx: "length (promises ?x) = Suc ?p" by (simp add: send_await_def Let_def)
  have px: "pget ?x ?p = Pending" using same_turn_pending [OF wf] .
  have fr: "free ?p (?x\<lparr>queue := []\<rparr>)"
    using wf lx px
    by (auto simp: free_def pget_def close_fields well_formed_def send_await_def Let_def)
  have "owned (idc (?x\<lparr>queue := []\<rparr>) + 1) ?p (send_body m ps ?p (?x\<lparr>queue := []\<rparr>))"
    using free_owned [OF fr] .
  moreover have "ready_microtasks ?x = send_body m ps ?p (?x\<lparr>queue := []\<rparr>)"
    using rx qx by (simp add: ready_microtasks_def)
  moreover have "idc (?x\<lparr>queue := []\<rparr>) = idc w" by (simp add: send_await_def Let_def)
  ultimately show ?thesis by simp
qed

lemma same_turn_run:
  assumes wf: "well_formed w" and r: "ready w = Fulfilled r" and f: "flushed w"
  shows "pget (run es (drain (ready_microtasks (close (snd (send_await m ps w))))))
           (length (promises w)) = settled_by (idc w + 1) es"
  using owned_run [OF owned_drain [OF same_turn_owned [OF assms]]] .

lemma same_turn_slot:
  assumes wf: "well_formed w" and r: "ready w = Fulfilled r" and f: "flushed w"
  shows "map_of (callbacks (ready_microtasks (close (snd (send_await m ps w))))) (idc w + 1) =
           Some (length (promises w))"
  using same_turn_owned [OF assms, of m ps] by (simp add: owned_def)

text \<open>A call made when the socket has failed.\<close>

lemma failed_turn:
  assumes r: "ready w = Rejected e"
  shows "settled (length (promises w)) (Rejected e) (ready_microtasks (snd (send_await m ps w)))"
    and "callbacks (ready_microtasks (snd (send_await m ps w))) = callbacks w"
proof -
  let ?p = "length (promises w)"
  let ?s = "snd (send_await m ps w)"
  let ?w1 = "fold (\<lambda>(m, ps, q). reject q e) (queue ?s) (?s\<lparr>queue := []\<rparr>)"
  have rm: "ready_microtasks ?s = ?w1"
    using r by (simp add: ready_microtasks_def send_await_def Let_def)
  have im: "?p \<in> (snd \<circ> snd) ` set (queue ?s)"
    by (simp add: send_await_def Let_def)
  have p0: "pget (?s\<lparr>queue := []\<rparr>) ?p = Pending" "?p < length (promises (?s\<lparr>queue := []\<rparr>))"
    by (simp_all add: pget_def send_await_def Let_def)
  have r1: "pget ?w1 ?p = Rejected e"
    using im p0 by (simp add: pget_fold_reject3)
  have "length (promises ?w1) = length (promises (?s\<lparr>queue := []\<rparr>))"
    by (rule length_fold_reject3)
  then have l1: "length (promises ?w1) = Suc ?p"
    by (simp add: send_await_def Let_def)
  have "promises ?w1 ! ?p = Rejected e"
    using r1 l1 by (simp add: pget_def)
  then show "settled ?p (Rejected e) (ready_microtasks ?s)"
    using l1 rm by (simp add: settled_def)
  show "callbacks (ready_microtasks ?s) = callbacks w"
    using rm by (simp add: send_await_def Let_def)
qed

lemma failed_turn_run:
  assumes r: "ready w = Rejected e"
  shows "pget (run es (drain (ready_microtasks (snd (send_await m ps w))))) (length (promises w)) =
           Rejected e"
  using settled_pget [OF settled_run [OF settled_drain [OF failed_turn(1) [OF r]]]] .

text \<open>A call made while the socket is connecting.\<close>

lemma connecting_turn_queued:
  assumes wf: "well_formed w" and r: "ready w = Pending"
  shows "queued (idc w + length (queue w) + 1) (length (queue w)) (length (promises w))
           (drain (ready_microtasks (snd (send_await m ps w))))"
proof -
  have q: "queued (idc w + length (queue w) + 1) (length (queue w)) (length (promises w))
             (snd (send_await m ps w))"
    using send_queued [OF wf r, of m ps] send_connecting [OF r, of m ps] by simp
  have "ready (snd (send_await m ps w)) = Pending"
    using r by (simp add: send_await_def Let_def)
  then show ?thesis using queued_drain [OF q] by simp
qed

lemma send_await_no_slot: "callbacks (snd (send_await m ps w)) = callbacks w"
  by (simp add: send_await_def Let_def)

lemma send_await_fresh:
  assumes "well_formed w"
  shows "\<forall>x \<in> set (callbacks w). snd x \<noteq> fst (send_await m ps w)"
  using assms by (auto simp: well_formed_def)

lemma queued_no_slot:
  "queued i n p w \<Longrightarrow> \<forall>x \<in> set (callbacks w). snd x \<noteq> p"
  by (simp add: queued_def)


section \<open>The session\<close>

lemma send_frame:
  assumes "ready w = Fulfilled r" and "\<not> terminated w"
  shows "outbox (snd (send m ps w)) =
           outbox w @ [JObj [(''id'', JNum (int (idc w + 1))), (''method'', JStr m), (''params'', ps)]]"
  using assms by (simp add: send_def send_body_def Let_def)

lemma delivered_slot_removed:
  assumes "get_prop msg ''id'' = Some (JNum (int i))"
  shows "map_of (callbacks (snd (handleMessage (Some msg) w))) i = None"
proof (cases "map_of (callbacks w) i")
  case None
  then show ?thesis
    using assms by (cases msg) (auto simp: handleMessage_def)
next
  case (Some p)
  then show ?thesis
    using assms
    by (cases msg)
      (auto simp: handleMessage_def Let_def delete_conv' reject_def resolve_def settle_def
         split: option.splits)
qed

lemma no_slot_dropped:
  assumes "get_prop msg ''id'' = Some v" and "lookup_callback v w = None"
  shows "handleMessage (Some msg) w = (None, w)"
  using assms by (cases msg) (auto simp: handleMessage_def)



lemma settled_by_snoc_close:
  "settled_by i es = Pending \<Longrightarrow>
     settled_by i (es @ [CallClose]) = Rejected (Error ''Connection closed'')"
  by (induction i es rule: settled_by.induct) (auto split: if_splits)





lemma handleMessage_malformed: "handleMessage None w = (Some SyntaxError, w)"
  by (simp add: handleMessage_def)

lemma handleMessage_null: "handleMessage (Some JNull) w = (Some TypeError, w)"
  by (simp add: handleMessage_def)

lemma handleMessage_neither:
  assumes "msg \<noteq> JNull" and "get_prop msg ''id'' = None" and "get_prop msg ''method'' = None"
  shows "handleMessage (Some msg) w = (None, w)"
  using assms by (cases msg) (simp_all add: handleMessage_def)

text \<open>
  C3, as the code has it. On a frame that is not JSON \<open>handleMessage\<close> throws the
  parser's SyntaxError, and on the frame \<open>null\<close> a TypeError; nothing catches either, and
  the state, the slots and the subscriptions with it, is as it was. A frame other than
  \<open>null\<close> with neither an \<open>id\<close> nor a \<open>method\<close> is dropped: nothing is thrown and the
  state is as it was.
\<close>

theorem bad_frame:
  "handleMessage None w = (Some SyntaxError, w) \<and>
   handleMessage (Some JNull) w = (Some TypeError, w) \<and>
   (msg \<noteq> JNull \<and> get_prop msg ''id'' = None \<and> get_prop msg ''method'' = None \<longrightarrow>
      handleMessage (Some msg) w' = (None, w'))"
  using handleMessage_malformed [of w] handleMessage_null [of w]
    handleMessage_neither [of msg w']
  by blast

theorem bad_frame_witness:
  "handleMessage None two_pending = (Some SyntaxError, two_pending) \<and>
   handleMessage (Some (JObj [(''foo'', JNum 1)])) two_pending = (None, two_pending)"
proof -
  have h: "JObj [(''foo'', JNum 1)] \<noteq> JNull \<and>
           get_prop (JObj [(''foo'', JNum 1)]) ''id'' = None \<and>
           get_prop (JObj [(''foo'', JNum 1)]) ''method'' = None"
    by simp
  show ?thesis
    using bad_frame [of two_pending "JObj [(''foo'', JNum 1)]" two_pending] h by blast
qed

text \<open>
  C3 as stated fails: a frame that is not JSON makes \<open>handleMessage\<close> throw, and so does
  the frame \<open>null\<close>, which is JSON and has neither an \<open>id\<close> nor a \<open>method\<close>.
\<close>

theorem bad_frame_counterexample:
  "fst (handleMessage None new_session) = Some SyntaxError \<and>
   fst (handleMessage (Some JNull) new_session) = Some TypeError"
  by (simp add: handleMessage_def)

lemma settled_by_quiet:
  "\<forall>e \<in> set es. e \<noteq> CallClose \<and> (\<forall>d. e \<noteq> Message d) \<Longrightarrow> settled_by i es = Pending"
proof (induction es)
  case Nil
  then show ?case by simp
next
  case (Cons e es)
  then show ?case by (cases e) auto
qed

lemma settled_by_then_close:
  "\<forall>e \<in> set es. e \<noteq> CallClose \<and> (\<forall>d. e \<noteq> Message d) \<Longrightarrow>
     settled_by i (es @ [CallClose]) = Rejected (Error ''Connection closed'')"
proof (induction es)
  case Nil
  then show ?case by simp
next
  case (Cons e es)
  then show ?case by (cases e) auto
qed





section \<open>The network waits and the navigation waits\<close>

lemma listeners_of_off:
  "listeners_of ev (off ev' h w) =
     (if ev' = ev then removeAll h (listeners_of ev w) else listeners_of ev w)"
  by (auto simp: listeners_of_def off_def update_conv' split: option.splits)

lemma listeners_of_updates [simp]:
  "listeners_of ev (w\<lparr>promises := a\<rparr>) = listeners_of ev w"
  "listeners_of ev (w\<lparr>timers := b\<rparr>) = listeners_of ev w"
  "listeners_of ev (w\<lparr>closures := c\<rparr>) = listeners_of ev w"
  "listeners_of ev (w\<lparr>tasks := d\<rparr>) = listeners_of ev w"
  by (simp_all add: listeners_of_def)

lemma listeners_of_settle [simp]: "listeners_of ev (settle q v w) = listeners_of ev w"
  by (simp add: listeners_of_def settle_def)
lemma listeners_of_resolve [simp]: "listeners_of ev (resolve q v w) = listeners_of ev w"
  by (simp add: resolve_def)
lemma listeners_of_reject [simp]: "listeners_of ev (reject q v w) = listeners_of ev w"
  by (simp add: reject_def)
lemma listeners_of_clearTimeout [simp]: "listeners_of ev (clearTimeout t w) = listeners_of ev w"
  by (simp add: listeners_of_def clearTimeout_def)
lemma listeners_of_send [simp]: "listeners_of ev (snd (send m ps w)) = listeners_of ev w"
  by (simp add: listeners_of_def send_def send_body_def Let_def split: pstate.splits)
lemma listeners_of_sc [simp]: "listeners_of ev (w\<lparr>sc := x\<rparr>) = listeners_of ev w"
  by (simp add: listeners_of_def)
lemma listeners_of_frame_handler [simp]:
  "listeners_of ev (frame_handler params w) = listeners_of ev w"
  by (simp add: frame_handler_def Let_def split: option.splits json.splits)

lemma timers_settle [simp]: "timers (settle q v w) = timers w"
  by (simp add: settle_def)
lemma timers_resolve [simp]: "timers (resolve q v w) = timers w"
  by (simp add: resolve_def)
lemma timers_reject [simp]: "timers (reject q v w) = timers w"
  by (simp add: reject_def)
lemma timers_off [simp]: "timers (off ev h w) = timers w"
  by (simp add: off_def split: option.splits)
lemma timers_send [simp]: "timers (snd (send m ps w)) = timers w"
  by (simp add: send_def send_body_def Let_def split: pstate.splits)
lemma timers_frame_handler [simp]: "timers (frame_handler params w) = timers w"
  by (simp add: frame_handler_def Let_def split: option.splits json.splits)
lemma timers_clearTimeout:
  "timers (clearTimeout t w) =
     (if t < length (timers w)
      then (timers w)[t := (fst (timers w ! t), fst (snd (timers w ! t)), False)] else timers w)"
  by (simp add: clearTimeout_def)

lemma gone_settle [simp]: "gone ev h t (settle q v w) = gone ev h t w"
  by (simp add: gone_def)
lemma gone_resolve [simp]: "gone ev h t (resolve q v w) = gone ev h t w"
  by (simp add: gone_def)
lemma gone_reject [simp]: "gone ev h t (reject q v w) = gone ev h t w"
  by (simp add: gone_def)
lemma gone_off [simp]: "gone ev h t w \<Longrightarrow> gone ev h t (off ev' h' w)"
  by (simp add: gone_def listeners_of_off)
lemma gone_clearTimeout [simp]: "gone ev h t w \<Longrightarrow> gone ev h t (clearTimeout t' w)"
  by (auto simp: gone_def timers_clearTimeout nth_list_update)
lemma gone_send [simp]: "gone ev h t (snd (send m ps w)) = gone ev h t w"
  by (simp add: gone_def)
lemma gone_sc [simp]: "gone ev h t (w\<lparr>sc := x\<rparr>) = gone ev h t w"
  by (simp add: gone_def)
lemma gone_frame_handler [simp]: "gone ev h t (frame_handler params w) = gone ev h t w"
  by (simp add: gone_def)
lemma gone_invoke [simp]: "gone ev h t w \<Longrightarrow> gone ev h t (snd (invoke h' c params w))"
  by (cases c) (auto split: sum.splits bool.splits)
lemma gone_fanout [simp]: "gone ev h t w \<Longrightarrow> gone ev h t (snd (fanout ev' hs params w))"
proof (induction hs arbitrary: w)
  case Nil
  then show ?case by simp
next
  case (Cons h' hs)
  show ?case
  proof (cases "h' \<in> set (listeners_of ev' w) \<and> h' < length (closures w)")
    case False
    then show ?thesis using Cons by auto
  next
    case True
    obtain r w' where i: "invoke h' (closures w ! h') params w = (r, w')"
      by (cases "invoke h' (closures w ! h') params w")
    have o: "gone ev h t w'"
      using gone_invoke [OF Cons.prems, of h' "closures w ! h'" params] i by simp
    show ?thesis
    proof (cases r)
      case None
      then show ?thesis using True i Cons.IH [OF o] by simp
    next
      case (Some e)
      then show ?thesis using True i o by simp
    qed
  qed
qed
lemma gone_callbacks [simp]: "gone ev h t (w\<lparr>callbacks := x\<rparr>) = gone ev h t w"
  by (simp add: gone_def listeners_of_def)
lemma gone_handleMessage [simp]: "gone ev h t w \<Longrightarrow> gone ev h t (snd (handleMessage d w))"
  by (auto simp: handleMessage_def Let_def split: option.splits json.splits)
lemma gone_race [simp]: "gone ev h t w \<Longrightarrow> gone ev h t (snd (race lp tp t' rp w))"
  by (simp add: race_def split: pstate.splits)
lemma gone_arm_and_race [simp]:
  "gone ev h t w \<Longrightarrow> gone ev h t (snd (arm_and_race lp tmo e rp w))"
proof -
  assume o: "gone ev h t w"
  have "gone ev h t (w\<lparr>promises := promises w @ [Pending],
                       timers := timers w @ [(NavTimer (length (promises w)) e, tmo, True)]\<rparr>)"
    using o by (auto simp: gone_def nth_append listeners_of_def)
  then show ?thesis by (simp add: arm_and_race_def Let_def)
qed
lemma gone_stop_rest [simp]: "gone ev h t w \<Longrightarrow> gone ev h t (stop_rest rp w)"
  by (cases "frameHandler (sc w)") (simp_all add: stop_rest_def Let_def)
lemma gone_resume [simp]: "gone ev h t w \<Longrightarrow> gone ev h t (snd (resume k w))"
  by (cases k) (auto split: pstate.splits)
lemma gone_resume_all [simp]: "gone ev h t w \<Longrightarrow> gone ev h t (snd (resume_all ks w))"
proof (induction ks arbitrary: w)
  case Nil
  then show ?case by simp
next
  case (Cons k ks)
  obtain r w1 where r: "resume k w = (r, w1)" by (cases "resume k w")
  obtain rs w2 where rs: "resume_all ks w1 = (rs, w2)" by (cases "resume_all ks w1")
  have o1: "gone ev h t w1" using gone_resume [OF Cons.prems, of k] r by simp
  have "gone ev h t w2" using Cons.IH [OF o1] rs by simp
  then show ?case using r rs by simp
qed
lemma gone_drain [simp]: "gone ev h t w \<Longrightarrow> gone ev h t (drain w)"
proof -
  assume o: "gone ev h t w"
  obtain ks w' where r: "resume_all (tasks w) w = (ks, w')"
    by (cases "resume_all (tasks w) w")
  have "gone ev h t w'" using gone_resume_all [OF o, of "tasks w"] r by simp
  then show ?thesis using r by (simp add: drain_def gone_def listeners_of_def)
qed

lemma waiting_settle [simp]:
  "waiting k u h t p w \<Longrightarrow> q \<noteq> p \<Longrightarrow> waiting k u h t p (settle q v w)"
  by (simp add: waiting_def settle_def)
lemma waiting_resolve [simp]:
  "waiting k u h t p w \<Longrightarrow> q \<noteq> p \<Longrightarrow> waiting k u h t p (resolve q v w)"
  by (simp add: resolve_def)
lemma waiting_reject [simp]:
  "waiting k u h t p w \<Longrightarrow> q \<noteq> p \<Longrightarrow> waiting k u h t p (reject q v w)"
  by (simp add: reject_def)

lemma off_fields [simp]:
  "closures (off ev h w) = closures w" "promises (off ev h w) = promises w"
  "tasks (off ev h w) = tasks w"
  by (simp_all add: off_def split: option.splits)

lemma waiting_off:
  "waiting k u h t p w \<Longrightarrow> ev' \<noteq> traffic_event k \<or> h' \<noteq> h \<Longrightarrow>
     waiting k u h t p (off ev' h' w)"
  by (auto simp: waiting_def listeners_of_off)

lemma clearTimeout_fields [simp]:
  "closures (clearTimeout t w) = closures w" "promises (clearTimeout t w) = promises w"
  "tasks (clearTimeout t w) = tasks w"
  by (simp_all add: clearTimeout_def)

lemma waiting_clearTimeout:
  "waiting k u h t p w \<Longrightarrow> t' \<noteq> t \<Longrightarrow> waiting k u h t p (clearTimeout t' w)"
  by (auto simp: waiting_def timers_clearTimeout)

lemma matches_string: "\<exists>b. matches u (Some (JStr s)) = Inr b"
  by (cases u) auto

lemma invoke_other:
  assumes w: "waiting k u h t p w" and ne: "h' \<noteq> h"
    and l: "h' \<in> set (listeners_of (traffic_event k) w)"
    and d: "destructure params (traffic_key k) = Inr r" and s: "get_prop r ''url'' = Some (JStr s)"
  shows "fst (invoke h' (closures w ! h') params w) = None \<and>
         waiting k u h t p (snd (invoke h' (closures w ! h') params w))"
proof -
  have o: "h' < length (closures w) \<and>
          (case closures w ! h' of
             NetworkHandler k' u' t' p' \<Rightarrow> k' = k \<and> p' \<noteq> p \<and> t' \<noteq> t
           | _ \<Rightarrow> False)"
    using w ne l by (simp add: waiting_def)
  then obtain u' t' p' where c: "closures w ! h' = NetworkHandler k u' t' p'"
    and pp: "p' \<noteq> p" and tt: "t' \<noteq> t"
    by (cases "closures w ! h'") auto
  obtain b where m: "matches u' (Some (JStr s)) = Inr b"
    using matches_string by blast
  show ?thesis
  proof (cases b)
    case False
    then show ?thesis using c d s m w by simp
  next
    case True
    have "waiting k u h t p (resolve p' (Some (traffic_result k r))
            (off (traffic_event k) h' (clearTimeout t' w)))"
      using w pp tt ne by (intro waiting_resolve waiting_off waiting_clearTimeout) auto
    then show ?thesis using c d s m True by simp
  qed
qed

lemma invoke_own:
  assumes w: "waiting k u h t p w"
    and d: "destructure params (traffic_key k) = Inr r" and s: "get_prop r ''url'' = Some (JStr s)"
  shows "invoke h (closures w ! h) params w =
           (if matching u r
            then (None, resolve p (Some (traffic_result k r))
                          (off (traffic_event k) h (clearTimeout t w)))
            else (None, w))"
proof -
  have c: "closures w ! h = NetworkHandler k u t p" using w by (simp add: waiting_def)
  obtain b where m: "matches u (Some (JStr s)) = Inr b"
    using matches_string by blast
  show ?thesis using c d s m by (cases b) (simp_all add: matching_def)
qed

lemma own_match_done:
  assumes w: "waiting k u h t p w"
  shows "settled p (Fulfilled v) (resolve p v (off (traffic_event k) h (clearTimeout t w))) \<and>
         gone (traffic_event k) h t (resolve p v (off (traffic_event k) h (clearTimeout t w)))"
  using w
  by (auto simp: waiting_def settled_def gone_def resolve_def settle_def listeners_of_off
      timers_clearTimeout)

lemma fanout_waiting:
  assumes d: "destructure params (traffic_key k) = Inr r" and s: "get_prop r ''url'' = Some (JStr s)"
  shows "waiting k u h t p w \<Longrightarrow>
     (if matching u r \<and> h \<in> set hs
      then settled p (Fulfilled (Some (traffic_result k r)))
             (snd (fanout (traffic_event k) hs params w)) \<and>
           gone (traffic_event k) h t (snd (fanout (traffic_event k) hs params w))
      else waiting k u h t p (snd (fanout (traffic_event k) hs params w)))"
proof (induction hs arbitrary: w)
  case Nil
  then show ?case by simp
next
  case (Cons h' hs)
  note w = Cons.prems
  have hl: "h \<in> set (listeners_of (traffic_event k) w) \<and> h < length (closures w)"
    using w by (simp add: waiting_def)
  show ?case
  proof (cases "h' \<in> set (listeners_of (traffic_event k) w) \<and> h' < length (closures w)")
    case False
    then have "h' \<noteq> h" using hl by auto
    then show ?thesis using False Cons.IH [OF w] by auto
  next
    case True
    show ?thesis
    proof (cases "h' = h")
      case ne: False
      obtain x w' where i: "invoke h' (closures w ! h') params w = (x, w')"
        by (cases "invoke h' (closures w ! h') params w")
      have "x = None \<and> waiting k u h t p w'"
        using invoke_other [OF w ne _ d s] True i by simp
      then show ?thesis using True ne i Cons.IH [of w'] by auto
    next
      case eq: True
      show ?thesis
      proof (cases "matching u r")
        case False
        then show ?thesis
          using True eq invoke_own [OF w d s] Cons.IH [OF w] by simp
      next
        case m: True
        let ?w' = "resolve p (Some (traffic_result k r))
                     (off (traffic_event k) h (clearTimeout t w))"
        have i: "invoke h (closures w ! h) params w = (None, ?w')"
          using invoke_own [OF w d s] m by simp
        have dn: "settled p (Fulfilled (Some (traffic_result k r))) ?w' \<and>
                  gone (traffic_event k) h t ?w'"
          using own_match_done [OF w] .
        have "settled p (Fulfilled (Some (traffic_result k r)))
                (snd (fanout (traffic_event k) hs params ?w')) \<and>
              gone (traffic_event k) h t (snd (fanout (traffic_event k) hs params ?w'))"
          using dn by simp
        then show ?thesis using True eq i m by simp
      qed
    qed
  qed
qed

lemma traffic_event_nonempty [simp]: "traffic_event k \<noteq> []"
  by (cases k) simp_all

lemma traffic_event_not_frame [simp]: "''Page.screencastFrame'' \<noteq> traffic_event k"
  by (cases k) simp_all

lemma traffic_ofD:
  assumes "traffic_of k e = Some r"
  shows "\<exists>msg s. e = Message (Some msg) \<and> msg \<noteq> JNull \<and> get_prop msg ''id'' = None \<and>
           get_prop msg ''method'' = Some (JStr (traffic_event k)) \<and>
           destructure (get_prop msg ''params'') (traffic_key k) = Inr r \<and>
           get_prop r ''url'' = Some (JStr s)"
proof (cases e)
  case (Message d)
  then obtain msg where d: "d = Some msg" using assms by (cases d) auto
  show ?thesis
    using assms Message d
    by (auto split: if_splits sum.splits option.splits json.splits)
qed (use assms in auto)

lemma handleMessage_traffic:
  assumes "msg \<noteq> JNull" and "get_prop msg ''id'' = None"
    and "get_prop msg ''method'' = Some (JStr (traffic_event k))"
    and "listeners_of (traffic_event k) w \<noteq> []"
  shows "handleMessage (Some msg) w =
           fanout (traffic_event k) (listeners_of (traffic_event k) w) (get_prop msg ''params'') w"
proof -
  have "map_of (eventListeners w) (traffic_event k) \<noteq> None"
    using assms(4) by (auto simp: listeners_of_def split: option.splits)
  then show ?thesis
    using assms(1-3) by (cases msg) (auto simp: handleMessage_def)
qed

lemma race_result:
  "fst (race lp tp t' rp w) = Some x \<Longrightarrow> x = AwaitRace lp tp t' rp"
  by (auto simp: race_def split: pstate.splits)

lemma waiting_race:
  "waiting k u h t p w \<Longrightarrow> rp \<noteq> p \<Longrightarrow> t' \<noteq> t \<Longrightarrow>
     waiting k u h t p (snd (race lp tp t' rp w))"
  by (auto simp: race_def waiting_clearTimeout split: pstate.splits)

lemma waiting_arm_and_race:
  assumes w: "waiting k u h t p w" and r: "rp \<noteq> p"
  shows "waiting k u h t p (snd (arm_and_race lp tmo e rp w))"
proof -
  let ?w1 = "w\<lparr>promises := promises w @ [Pending],
               timers := timers w @ [(NavTimer (length (promises w)) e, tmo, True)]\<rparr>"
  have 1: "waiting k u h t p ?w1"
    using w by (auto simp: waiting_def nth_append)
  have 2: "length (timers w) \<noteq> t" using w by (auto simp: waiting_def)
  show ?thesis
    using waiting_race [OF 1 r 2] by (simp add: arm_and_race_def Let_def)
qed

lemma arm_and_race_result:
  "fst (arm_and_race lp tmo e rp w) = Some x \<Longrightarrow>
     x = AwaitRace lp (length (promises w)) (length (timers w)) rp"
  by (simp add: arm_and_race_def Let_def race_result)

lemma waiting_sc [simp]: "waiting k u h t p (w\<lparr>sc := x\<rparr>) = waiting k u h t p w"
  by (simp add: waiting_def)

lemma waiting_stop_rest:
  "waiting k u h t p w \<Longrightarrow> rp \<noteq> p \<Longrightarrow> waiting k u h t p (stop_rest rp w)"
  by (cases "frameHandler (sc w)") (simp_all add: stop_rest_def Let_def waiting_off)

lemma waiting_resume:
  assumes w: "waiting k u h t p w" and a: "task_target x \<noteq> p" and b: "task_timer x \<noteq> Some t"
  shows "waiting k u h t p (snd (resume x w)) \<and>
         (\<forall>x'. fst (resume x w) = Some x' \<longrightarrow> task_target x' \<noteq> p \<and> task_timer x' \<noteq> Some t)"
proof -
  have lt: "length (timers w) \<noteq> t" using w by (auto simp: waiting_def)
  show ?thesis
  proof (cases x)
    case (AwaitSend sp lp tmo e rp)
    then show ?thesis
      using w a lt waiting_arm_and_race [OF w, of rp lp tmo e]
        arm_and_race_result [of lp tmo e rp w]
      by (auto split: pstate.splits)
  next
    case (AwaitRace lp tp t' rp)
    then show ?thesis
      using w a b waiting_race [OF w, of rp t' lp tp] race_result [of lp tp t' rp w]
      by auto
  next
    case (AwaitStop sp rp)
    then show ?thesis using w a by (auto split: pstate.splits simp: waiting_stop_rest)
  next
    case (AwaitDone sp rp)
    then show ?thesis using w a by (auto split: pstate.splits)
  qed
qed

lemma waiting_resume_all:
  "waiting k u h t p w \<Longrightarrow>
   \<forall>x \<in> set xs. task_target x \<noteq> p \<and> task_timer x \<noteq> Some t \<Longrightarrow>
     waiting k u h t p (snd (resume_all xs w)) \<and>
     (\<forall>x \<in> set (fst (resume_all xs w)). task_target x \<noteq> p \<and> task_timer x \<noteq> Some t)"
proof (induction xs arbitrary: w)
  case Nil
  then show ?case by simp
next
  case (Cons x xs)
  obtain r w1 where r: "resume x w = (r, w1)" by (cases "resume x w")
  obtain rs w2 where rs: "resume_all xs w1 = (rs, w2)" by (cases "resume_all xs w1")
  have 1: "waiting k u h t p w1 \<and>
           (\<forall>x'. r = Some x' \<longrightarrow> task_target x' \<noteq> p \<and> task_timer x' \<noteq> Some t)"
    using waiting_resume [OF Cons.prems(1), of x] Cons.prems(2) r by simp
  have ih: "waiting k u h t p w2 \<and>
            (\<forall>x \<in> set rs. task_target x \<noteq> p \<and> task_timer x \<noteq> Some t)"
    using Cons.IH [of w1] 1 Cons.prems(2) rs by simp
  show ?case
    using r rs ih 1 by (auto split: option.splits)
qed

lemma waiting_drain: "waiting k u h t p w \<Longrightarrow> waiting k u h t p (drain w)"
proof -
  assume w: "waiting k u h t p w"
  obtain xs w' where r: "resume_all (tasks w) w = (xs, w')"
    by (cases "resume_all (tasks w) w")
  have t: "\<forall>x \<in> set (tasks w). task_target x \<noteq> p \<and> task_timer x \<noteq> Some t"
    using w by (simp add: waiting_def)
  have "waiting k u h t p w' \<and> (\<forall>x \<in> set xs. task_target x \<noteq> p \<and> task_timer x \<noteq> Some t)"
    using waiting_resume_all [OF w t] r by simp
  then show ?thesis
    using r by (auto simp: drain_def waiting_def)
qed

lemma step_traffic:
  assumes w: "waiting k u h t p w" and e: "traffic_of k e = Some r"
  shows "if matching u r
         then settled p (Fulfilled (Some (traffic_result k r))) (step e w) \<and>
              gone (traffic_event k) h t (step e w)
         else waiting k u h t p (step e w)"
proof -
  obtain msg s where m: "e = Message (Some msg)" "msg \<noteq> JNull" "get_prop msg ''id'' = None"
      "get_prop msg ''method'' = Some (JStr (traffic_event k))"
      "destructure (get_prop msg ''params'') (traffic_key k) = Inr r"
      "get_prop r ''url'' = Some (JStr s)"
    using traffic_ofD [OF e] by blast
  have hl: "h \<in> set (listeners_of (traffic_event k) w)" using w by (simp add: waiting_def)
  then have ne: "listeners_of (traffic_event k) w \<noteq> []" by auto
  have hm: "handleMessage (Some msg) w =
              fanout (traffic_event k) (listeners_of (traffic_event k) w) (get_prop msg ''params'') w"
    using handleMessage_traffic [OF m(2,3,4) ne] .
  note f = fanout_waiting [OF m(5,6) w, of "listeners_of (traffic_event k) w"]
  show ?thesis
  proof (cases "matching u r")
    case True
    then show ?thesis
      using f hl hm m(1) by (simp add: step_def)
  next
    case False
    then show ?thesis
      using f hm m(1) by (simp add: step_def waiting_drain)
  qed
qed

lemma step_timeout:
  assumes w: "waiting k u h t p w"
  shows "settled p (Rejected (traffic_timeout k)) (step (Timer t) w) \<and>
         gone (traffic_event k) h t (step (Timer t) w)"
proof -
  have f: "fire t w = reject p (traffic_timeout k) (off (traffic_event k) h (clearTimeout t w))"
    using w by (simp add: fire_def waiting_def)
  have "settled p (Rejected (traffic_timeout k)) (fire t w) \<and> gone (traffic_event k) h t (fire t w)"
    unfolding f using w
    by (auto simp: waiting_def settled_def gone_def reject_def settle_def listeners_of_off
        timers_clearTimeout)
  then show ?thesis by (simp add: step_def)
qed

lemma gone_step_message: "gone ev h t w \<Longrightarrow> gone ev h t (step (Message d) w)"
  by (simp add: step_def)

lemma run_traffic:
  "waiting k u h t p w \<Longrightarrow> \<forall>e \<in> set es. traffic_of k e \<noteq> None \<Longrightarrow>
     (case first_match k u es of
        Some r \<Rightarrow> settled p (Fulfilled (Some (traffic_result k r))) (run es w) \<and>
                  gone (traffic_event k) h t (run es w)
      | None \<Rightarrow> waiting k u h t p (run es w))"
proof (induction es arbitrary: w)
  case Nil
  then show ?case by (simp add: run_def)
next
  case (Cons e es)
  obtain r where r: "traffic_of k e = Some r" using Cons.prems(2) by auto
  note st = step_traffic [OF Cons.prems(1) r]
  show ?case
  proof (cases "matching u r")
    case True
    have m: "\<forall>e \<in> set es. \<exists>d. e = Message d"
    proof
      fix e' assume "e' \<in> set es"
      then have "traffic_of k e' \<noteq> None" using Cons.prems(2) by simp
      then show "\<exists>d. e' = Message d" by (cases e') auto
    qed
    have g: "gone (traffic_event k) h t w' \<Longrightarrow> gone (traffic_event k) h t (run es w')" for w'
      using m
    proof (induction es arbitrary: w')
      case Nil
      then show ?case by (simp add: run_def)
    next
      case (Cons a es)
      obtain d where "a = Message d" using Cons.prems(2) by auto
      then show ?case using Cons gone_step_message [of "traffic_event k" h t w' d]
        by (simp add: run_Cons)
    qed
    show ?thesis
      unfolding run_Cons
      using True r st g [of "step e w"] settled_run [of p _ "step e w" es]
      by simp
  next
    case False
    then show ?thesis
      unfolding run_Cons
      using r st Cons.IH [of "step e w"] Cons.prems(2) by simp
  qed
qed

lemma set_add_mem [simp]: "h \<in> set (set_add h hs)"
  by (simp add: set_add_def)

lemma set_set_add: "set (set_add h hs) = insert h (set hs)"
  by (auto simp: set_add_def)

lemma listeners_of_on:
  "set (listeners_of ev (on ev' h w)) =
     (if ev' = ev then insert h (set (listeners_of ev w)) else set (listeners_of ev w))"
  by (auto simp: listeners_of_def on_def update_conv' set_set_add split: option.splits)

lemma on_fields [simp]:
  "closures (on ev h w) = closures w" "promises (on ev h w) = promises w"
  "tasks (on ev h w) = tasks w" "timers (on ev h w) = timers w"
  by (simp_all add: on_def split: option.splits)

lemma network_wait_waiting:
  assumes "network_ready k w"
  shows "waiting k u (length (closures w)) (length (timers w)) (length (promises w))
           (snd (network_wait k u tmo w))"
  using assms
  unfolding network_ready_def waiting_def network_wait_def Let_def
  by (auto simp: listeners_of_on nth_append split: listener.splits option.splits)

lemma first_match_snoc_None:
  "first_match k u es = None \<Longrightarrow> traffic_of k e = None \<Longrightarrow> first_match k u (es @ [e]) = None"
  by (induction es) (auto split: option.splits if_splits)

lemma network_wait_outcome:
  assumes nr: "network_ready k w" and tr: "\<forall>e \<in> set es. traffic_of k e \<noteq> None"
  shows "let p = fst (network_wait k u tmo w); w1 = snd (network_wait k u tmo w);
             h = length (closures w); t = length (timers w)
         in h \<in> set (listeners_of (traffic_event k) w1) \<and>
            (case first_match k u es of
               Some r \<Rightarrow>
                 pget (run es w1) p = Fulfilled (Some (traffic_result k r)) \<and>
                 h \<notin> set (listeners_of (traffic_event k) (run es w1))
             | None \<Rightarrow>
                 pget (run es w1) p = Pending \<and>
                 h \<in> set (listeners_of (traffic_event k) (run es w1)) \<and>
                 pget (run (es @ [Timer t]) w1) p = Rejected (traffic_timeout k) \<and>
                 h \<notin> set (listeners_of (traffic_event k) (run (es @ [Timer t]) w1)))"
proof -
  let ?p = "length (promises w)" and ?h = "length (closures w)" and ?t = "length (timers w)"
  let ?w1 = "snd (network_wait k u tmo w)"
  have p: "fst (network_wait k u tmo w) = ?p" by (simp add: network_wait_def Let_def)
  have w1: "waiting k u ?h ?t ?p ?w1" using network_wait_waiting [OF nr] .
  have l1: "?h \<in> set (listeners_of (traffic_event k) ?w1)" using w1 by (simp add: waiting_def)
  note rt = run_traffic [OF w1 tr]
  show ?thesis
  proof (cases "first_match k u es")
    case (Some r)
    then show ?thesis
      using rt l1 p by (simp add: Let_def settled_pget gone_def)
  next
    case None
    then have wt: "waiting k u ?h ?t ?p (run es ?w1)" using rt by simp
    have a: "pget (run es ?w1) ?p = Pending \<and> ?h \<in> set (listeners_of (traffic_event k) (run es ?w1))"
      using wt by (simp add: waiting_def pget_def)
    have b: "settled ?p (Rejected (traffic_timeout k)) (run (es @ [Timer ?t]) ?w1) \<and>
             gone (traffic_event k) ?h ?t (run (es @ [Timer ?t]) ?w1)"
      using step_timeout [OF wt] by (simp add: run_append run_def)
    show ?thesis
      using None a b l1 p by (simp add: Let_def settled_pget gone_def)
  qed
qed

subsection \<open>What the registrations keep\<close>

lemma listener_ok_mono: "listener_ok n c \<Longrightarrow> n \<le> m \<Longrightarrow> listener_ok m c"
  by (cases c) auto

lemma task_ok_mono: "task_ok n k \<Longrightarrow> n \<le> m \<Longrightarrow> task_ok m k"
  by (cases k) auto

lemma registered_network_ready:
  assumes wf: "well_formed w" and r: "registered w"
  shows "network_ready k w"
proof -
  have a: "h < length (closures w) \<and>
           (case closures w ! h of
              NetworkHandler k' u t p \<Rightarrow> k' = k \<and> p < length (promises w) \<and> t < length (timers w)
            | _ \<Rightarrow> False)"
    if h: "h \<in> set (listeners_of (traffic_event k) w)" for h
  proof -
    obtain hs where m: "map_of (eventListeners w) (traffic_event k) = Some hs" and hh: "h \<in> set hs"
      using h by (cases "map_of (eventListeners w) (traffic_event k)") (auto simp: listeners_of_def)
    have "(traffic_event k, hs) \<in> set (eventListeners w)" using m by (rule map_of_SomeD)
    then have l: "h < length (closures w)" and e: "listener_event (closures w ! h) = traffic_event k"
      using r hh by (auto simp: registered_def)
    have c: "closures w ! h \<in> set (closures w)" using l by simp
    have ok: "listener_ok (length (timers w)) (closures w ! h)"
      using r c by (simp add: registered_def)
    have tg: "\<forall>q \<in> listener_targets (closures w ! h). q < length (promises w)"
      using wf c by (simp add: well_formed_def)
    show ?thesis
      using l e ok tg by (cases "closures w ! h"; cases k) (auto elim!: traffic_event.elims)
  qed
  have b: "task_target x < length (promises w) \<and>
           (case task_timer x of Some t \<Rightarrow> t < length (timers w) | None \<Rightarrow> True)"
    if x: "x \<in> set (tasks w)" for x
  proof -
    have 1: "task_target x < length (promises w)" using wf x by (simp add: well_formed_def)
    have 2: "task_ok (length (timers w)) x" using r x by (simp add: registered_def)
    show ?thesis using 1 2 by (cases x) auto
  qed
  show ?thesis using a b by (simp add: network_ready_def)
qed

lemma reg_settle [simp]: "registered (settle q v w) = registered w"
  by (simp add: registered_def settle_def)
lemma reg_resolve [simp]: "registered (resolve q v w) = registered w"
  by (simp add: resolve_def)
lemma reg_reject [simp]: "registered (reject q e w) = registered w"
  by (simp add: reject_def)

lemma reg_on:
  assumes r: "registered w" and l: "h < length (closures w)"
    and e: "listener_event (closures w ! h) = ev"
  shows "registered (on ev h w)"
proof -
  have a: "\<forall>h' \<in> set (snd x). h' < length (closures w) \<and> listener_event (closures w ! h') = fst x"
    if x: "x \<in> set (eventListeners (on ev h w))" for x
  proof (cases "map_of (eventListeners w) ev")
    case None
    then have "x = (ev, [h]) \<or> x \<in> set (eventListeners w)"
      using x by (auto simp: on_def dest!: set_update_subset)
    then show ?thesis using r l e by (auto simp: registered_def)
  next
    case (Some hs)
    have m: "(ev, hs) \<in> set (eventListeners w)" using Some by (rule map_of_SomeD)
    have "x = (ev, set_add h hs) \<or> x \<in> set (eventListeners w)"
      using x Some by (auto simp: on_def dest!: set_update_subset)
    then show ?thesis using r l e m by (auto simp: registered_def set_set_add)
  qed
  show ?thesis
    using a r by (auto simp: registered_def)
qed

lemma reg_off [simp]: "registered w \<Longrightarrow> registered (off ev h w)"
proof -
  assume r: "registered w"
  have a: "\<forall>h' \<in> set (snd x). h' < length (closures w) \<and> listener_event (closures w ! h') = fst x"
    if x: "x \<in> set (eventListeners (off ev h w))" for x
  proof (cases "map_of (eventListeners w) ev")
    case None
    then show ?thesis using x r by (auto simp: off_def registered_def)
  next
    case (Some hs)
    have m: "(ev, hs) \<in> set (eventListeners w)" using Some by (rule map_of_SomeD)
    have "x = (ev, removeAll h hs) \<or> x \<in> set (eventListeners w)"
      using x Some by (auto simp: off_def dest!: set_update_subset)
    then show ?thesis using r m by (auto simp: registered_def)
  qed
  show ?thesis
    using a r by (auto simp: registered_def)
qed

lemma reg_clearTimeout [simp]: "registered w \<Longrightarrow> registered (clearTimeout t w)"
  by (simp add: registered_def clearTimeout_def)

lemma reg_send_body [simp]: "registered (send_body m ps q w) = registered w"
  by (simp add: registered_def send_body_def Let_def)

lemma reg_send [simp]: "registered (snd (send m ps w)) = registered w"
  by (simp add: send_def Let_def registered_def send_body_def split: pstate.splits)

lemma reg_fold_send_body:
  "registered (fold (\<lambda>(m, ps, q). send_body m ps q) xs w) = registered w"
proof (induction xs arbitrary: w)
  case Nil
  then show ?case by simp
next
  case (Cons x xs)
  obtain a b q where x: "x = (a, b, q)" by (cases x)
  show ?case using Cons.IH [of "send_body a b q w"] x by simp
qed

lemma reg_fold_reject3:
  "registered (fold (\<lambda>(m, ps, q). reject q e) xs w) = registered w"
proof (induction xs arbitrary: w)
  case Nil
  then show ?case by simp
next
  case (Cons x xs)
  obtain a b q where x: "x = (a, b, q)" by (cases x)
  show ?case using Cons.IH [of "reject q e w"] x by simp
qed

lemma reg_fold_reject:
  "registered (fold (\<lambda>(i, q). reject q e) xs w) = registered w"
proof (induction xs arbitrary: w)
  case Nil
  then show ?case by simp
next
  case (Cons x xs)
  obtain a q where x: "x = (a, q)" by (cases x)
  show ?case using Cons.IH [of "reject q e w"] x by simp
qed

lemma reg_ready_queue [simp]: "registered (w\<lparr>ready := a, queue := b\<rparr>) = registered w"
  by (simp add: registered_def)

lemma reg_ws_open [simp]: "registered (ws_open w) = registered w"
  by (simp add: ws_open_def reg_fold_send_body)

lemma reg_ws_error [simp]: "registered (ws_error w) = registered w"
  by (simp add: ws_error_def reg_fold_reject3)

lemma reg_close [simp]: "registered w \<Longrightarrow> registered (close w)"
proof -
  assume r: "registered w"
  have "registered (fold (\<lambda>(i, q). reject q (Error ''Connection closed'')) (callbacks w) w)"
    using r by (simp add: reg_fold_reject)
  then show ?thesis by (simp add: close_def registered_def)
qed

lemma reg_sc [simp]: "registered (w\<lparr>sc := x\<rparr>) = registered w"
  by (simp add: registered_def)

lemma reg_frame_handler [simp]: "registered (frame_handler params w) = registered w"
  by (simp add: frame_handler_def Let_def split: option.splits json.splits)

lemma reg_invoke [simp]: "registered w \<Longrightarrow> registered (snd (invoke h c params w))"
  by (cases c) (auto split: sum.splits bool.splits)

lemma reg_fanout [simp]: "registered w \<Longrightarrow> registered (snd (fanout ev hs params w))"
proof (induction hs arbitrary: w)
  case Nil
  then show ?case by simp
next
  case (Cons h hs)
  show ?case
  proof (cases "h \<in> set (listeners_of ev w) \<and> h < length (closures w)")
    case False
    then show ?thesis using Cons by auto
  next
    case True
    obtain r w' where i: "invoke h (closures w ! h) params w = (r, w')"
      by (cases "invoke h (closures w ! h) params w")
    have o: "registered w'"
      using reg_invoke [OF Cons.prems, of h "closures w ! h" params] i by simp
    show ?thesis
    proof (cases r)
      case None
      then show ?thesis using True i Cons.IH [OF o] by simp
    next
      case (Some e)
      then show ?thesis using True i o by simp
    qed
  qed
qed

lemma reg_callbacks [simp]: "registered (w\<lparr>callbacks := x\<rparr>) = registered w"
  by (simp add: registered_def)

lemma reg_handleMessage [simp]: "registered w \<Longrightarrow> registered (snd (handleMessage d w))"
  by (auto simp: handleMessage_def Let_def split: option.splits json.splits)

lemma reg_run_timer [simp]: "registered w \<Longrightarrow> registered (run_timer cb w)"
  by (cases cb) auto

lemma reg_fire [simp]: "registered w \<Longrightarrow> registered (fire t w)"
  by (auto simp: fire_def)

lemma reg_append_promise [simp]: "registered (w\<lparr>promises := x\<rparr>) = registered w"
  by (simp add: registered_def)

lemma reg_append_closure:
  assumes r: "registered w" and ok: "listener_ok (length (timers w)) c"
  shows "registered (w\<lparr>closures := closures w @ [c]\<rparr>)"
proof -
  have a: "h < length (closures w @ [c]) \<and> listener_event ((closures w @ [c]) ! h) = fst x"
    if "x \<in> set (eventListeners w)" and "h \<in> set (snd x)" for x h
  proof -
    have "h < length (closures w) \<and> listener_event (closures w ! h) = fst x"
      using r that by (simp add: registered_def)
    then show ?thesis by (simp add: nth_append)
  qed
  show ?thesis
    using a r ok by (simp add: registered_def)
qed

lemma reg_append_timer:
  assumes r: "registered w"
  shows "registered (w\<lparr>timers := timers w @ [x]\<rparr>)"
proof -
  have a: "listener_ok (Suc (length (timers w))) c" if "c \<in> set (closures w)" for c
    using r that listener_ok_mono [of "length (timers w)" c "Suc (length (timers w))"]
    by (simp add: registered_def)
  have b: "task_ok (Suc (length (timers w))) k" if "k \<in> set (tasks w)" for k
    using r that task_ok_mono [of "length (timers w)" k "Suc (length (timers w))"]
    by (simp add: registered_def)
  show ?thesis
    using a b r by (simp add: registered_def)
qed

lemma reg_loadPromise [simp]:
  assumes r: "registered w"
  shows "registered (snd (loadPromise (eventName opts) w))"
proof -
  let ?c = "LoadHandler (eventName opts) (length (promises w))"
  let ?w1 = "w\<lparr>promises := promises w @ [Pending], closures := closures w @ [?c]\<rparr>"
  have ok: "listener_ok (length (timers w)) ?c" by (simp add: eventName_def)
  have r1: "registered ?w1"
    using reg_append_closure [OF r ok] by (simp add: registered_def)
  have "registered (on (eventName opts) (length (closures w)) ?w1)"
    using r1 by (intro reg_on) simp_all
  then show ?thesis by (simp add: loadPromise_def Let_def)
qed

lemma reg_new_promise [simp]: "registered (snd (new_promise x w)) = registered w"
  by (simp add: new_promise_def)

lemma reg_add_task:
  "registered w \<Longrightarrow> (\<forall>k'. k = Some k' \<longrightarrow> task_ok (length (timers w)) k') \<Longrightarrow>
     registered (add_task k w)"
  by (cases k) (auto simp: add_task_def registered_def)

lemma reg_race [simp]: "registered w \<Longrightarrow> registered (snd (race lp tp t rp w))"
  by (simp add: race_def split: pstate.splits)

lemma length_timers_race [simp]:
  "length (timers (snd (race lp tp t rp w))) = length (timers w)"
  by (simp add: race_def clearTimeout_def split: pstate.splits)

lemma race_task_ok:
  "fst (race lp tp t rp w) = Some k \<Longrightarrow> t < n \<Longrightarrow> task_ok n k"
  by (auto simp: race_def split: pstate.splits)

lemma reg_arm_and_race [simp]:
  "registered w \<Longrightarrow> registered (snd (arm_and_race lp tmo e rp w))"
proof -
  assume r: "registered w"
  have "registered (w\<lparr>promises := promises w @ [Pending],
                      timers := timers w @ [(NavTimer (length (promises w)) e, tmo, True)]\<rparr>)"
    using reg_append_timer [OF r, of "(NavTimer (length (promises w)) e, tmo, True)"]
    by (simp add: registered_def)
  then show ?thesis by (simp add: arm_and_race_def Let_def)
qed

lemma length_timers_arm_and_race [simp]:
  "length (timers (snd (arm_and_race lp tmo e rp w))) = Suc (length (timers w))"
  by (simp add: arm_and_race_def Let_def)

lemma arm_and_race_task_ok:
  "fst (arm_and_race lp tmo e rp w) = Some k \<Longrightarrow> task_ok (Suc (length (timers w))) k"
  using race_task_ok [of lp "length (promises w)" "length (timers w)" rp _ k "Suc (length (timers w))"]
  by (simp add: arm_and_race_def Let_def)

lemma reg_waitForNavigation [simp]:
  "registered w \<Longrightarrow> registered (snd (waitForNavigation opts w))"
proof -
  assume o: "registered w"
  let ?w1 = "snd (loadPromise (eventName opts) w)"
  let ?w2 = "snd (new_promise Pending ?w1)"
  let ?rp = "length (promises ?w1)"
  let ?r = "arm_and_race (fst (fst (loadPromise (eventName opts) w))) (timeout_of (timeout opts))
              (NavigationTimeout (timeout_of (timeout opts))) ?rp ?w2"
  have o3: "registered (snd ?r)" using o by simp
  have "registered (add_task (fst ?r) (snd ?r))"
    using o3 arm_and_race_task_ok by (intro reg_add_task) auto
  then show ?thesis
    by (simp add: waitForNavigation_def Let_def split_beta)
qed

lemma reg_goto [simp]: "registered w \<Longrightarrow> registered (snd (goto url opts w))"
  by (simp add: goto_def Let_def split_beta reg_add_task)

lemma reg_reload [simp]: "registered w \<Longrightarrow> registered (snd (reload opts w))"
  by (simp add: reload_def Let_def split_beta reg_add_task)

lemma reg_network_wait [simp]:
  assumes r: "registered w"
  shows "registered (snd (network_wait k u tmo w))"
proof -
  let ?c = "NetworkHandler k u (length (timers w)) (length (promises w))"
  let ?w1 = "w\<lparr>promises := promises w @ [Pending],
          timers := timers w @ [(NetworkTimer k (length (closures w)) (length (promises w)),
                                 timeout_of tmo, True)],
          closures := closures w @ [?c]\<rparr>"
  have r0: "registered (w\<lparr>timers := timers w @ [(NetworkTimer k (length (closures w))
                                       (length (promises w)), timeout_of tmo, True)]\<rparr>)"
    (is "registered ?w0")
    using reg_append_timer [OF r] .
  have "registered (?w0\<lparr>closures := closures ?w0 @ [?c]\<rparr>)"
    using r0 by (intro reg_append_closure) simp_all
  then have r1: "registered ?w1"
    by (simp add: registered_def)
  have "registered (on (traffic_event k) (length (closures w)) ?w1)"
    using r1 by (intro reg_on) simp_all
  then show ?thesis by (simp add: network_wait_def Let_def)
qed

lemma reg_waitForResponse [simp]:
  "registered w \<Longrightarrow> registered (snd (waitForResponse u tmo w))"
  by (simp add: waitForResponse_def)

lemma reg_waitForRequest [simp]:
  "registered w \<Longrightarrow> registered (snd (waitForRequest u tmo w))"
  by (simp add: waitForRequest_def)

lemma reg_start [simp]:
  assumes r: "registered w"
  shows "registered (snd (start w))"
proof -
  let ?w1 = "w\<lparr>closures := closures w @ [FrameHandler],
                sc := (sc w)\<lparr>frames := [], recording := True,
                              frameHandler := Some (length (closures w))\<rparr>\<rparr>"
  have "registered (w\<lparr>closures := closures w @ [FrameHandler]\<rparr>)"
    using r by (intro reg_append_closure) simp_all
  then have r1: "registered ?w1"
    by (simp add: registered_def)
  have "registered (on ''Page.screencastFrame'' (length (closures w)) ?w1)"
    using r1 by (intro reg_on) simp_all
  then show ?thesis using r by (simp add: start_def Let_def split_beta reg_add_task)
qed

lemma reg_stop [simp]: "registered w \<Longrightarrow> registered (snd (stop w))"
  by (simp add: stop_def Let_def split_beta reg_add_task)

lemma reg_stop_rest [simp]: "registered w \<Longrightarrow> registered (stop_rest rp w)"
  by (cases "frameHandler (sc w)") (simp_all add: stop_rest_def Let_def)

lemma reg_resume: "registered w \<Longrightarrow> registered (snd (resume k w))"
  by (cases k) (auto split: pstate.splits)

lemma length_timers_resume: "length (timers w) \<le> length (timers (snd (resume k w)))"
  by (cases k) (auto split: pstate.splits simp: stop_rest_def Let_def timers_clearTimeout
      split: option.splits)

lemma resume_task_ok:
  "fst (resume k w) = Some k' \<Longrightarrow> task_ok (length (timers w)) k \<Longrightarrow>
     task_ok (length (timers (snd (resume k w)))) k'"
  by (cases k) (auto split: pstate.splits simp: race_task_ok arm_and_race_task_ok)

lemma length_timers_resume_all:
  "length (timers w) \<le> length (timers (snd (resume_all ks w)))"
proof (induction ks arbitrary: w)
  case Nil
  then show ?case by simp
next
  case (Cons k ks)
  obtain r w1 where r: "resume k w = (r, w1)" by (cases "resume k w")
  obtain rs w2 where rs: "resume_all ks w1 = (rs, w2)" by (cases "resume_all ks w1")
  have "length (timers w) \<le> length (timers w1)" using length_timers_resume [of w k] r by simp
  moreover have "length (timers w1) \<le> length (timers w2)" using Cons.IH [of w1] rs by simp
  ultimately show ?case using r rs by simp
qed

lemma reg_resume_all:
  "registered w \<Longrightarrow> \<forall>k \<in> set ks. task_ok (length (timers w)) k \<Longrightarrow>
     registered (snd (resume_all ks w)) \<and>
     (\<forall>k \<in> set (fst (resume_all ks w)). task_ok (length (timers (snd (resume_all ks w)))) k)"
proof (induction ks arbitrary: w)
  case Nil
  then show ?case by simp
next
  case (Cons k ks)
  obtain r w1 where r: "resume k w = (r, w1)" by (cases "resume k w")
  obtain rs w2 where rs: "resume_all ks w1 = (rs, w2)" by (cases "resume_all ks w1")
  have o1: "registered w1" using reg_resume [OF Cons.prems(1), of k] r by simp
  have l1: "length (timers w) \<le> length (timers w1)"
    using length_timers_resume [of w k] r by simp
  have t1: "\<forall>k \<in> set ks. task_ok (length (timers w1)) k"
    using Cons.prems(2) l1 by (auto intro: task_ok_mono)
  have ih: "registered w2 \<and> (\<forall>k \<in> set rs. task_ok (length (timers w2)) k)"
    using Cons.IH [OF o1 t1] rs by simp
  have l2: "length (timers w1) \<le> length (timers w2)"
    using length_timers_resume_all [of w1 ks] rs by simp
  have t: "\<forall>k'. r = Some k' \<longrightarrow> task_ok (length (timers w2)) k'"
    using resume_task_ok [of k w] r Cons.prems(2) l2 by (auto intro: task_ok_mono)
  show ?case
    using r rs ih t by (auto split: option.splits)
qed

lemma reg_drain [simp]: "registered w \<Longrightarrow> registered (drain w)"
proof -
  assume o: "registered w"
  obtain ks w' where r: "resume_all (tasks w) w = (ks, w')"
    by (cases "resume_all (tasks w) w")
  have t: "\<forall>k \<in> set (tasks w). task_ok (length (timers w)) k"
    using o by (simp add: registered_def)
  have "registered w' \<and> (\<forall>k \<in> set ks. task_ok (length (timers w')) k)"
    using reg_resume_all [OF o t] r by simp
  then show ?thesis
    using r by (auto simp: drain_def registered_def)
qed

lemma reg_call [simp]: "registered w \<Longrightarrow> registered (call e w)"
  by (cases e) (simp_all add: isRecording_def frameCount_def, simp add: registered_def)

lemma reg_step [simp]: "registered w \<Longrightarrow> registered (step e w)"
  by (simp add: step_def)

lemma reg_run: "registered w \<Longrightarrow> registered (run es w)"
  unfolding run_def by (induction es arbitrary: w) auto

lemma reg_new_session: "registered new_session"
  by (simp add: registered_def new_session_def)

lemma network_ready_reachable: "network_ready k (run es new_session)"
  using registered_network_ready [OF wf_reachable reg_run [OF reg_new_session]] .

text \<open>
  C7, as the code has it. \<open>waitForResponse\<close> and \<open>waitForRequest\<close> are the two instances
  of one wait. In a state whose listeners for the traffic event are handlers of such waits,
  as every state the session reaches is, after any sequence of traffic events of that kind: if one of them matches, the promise is
  fulfilled with the fields of the first that does (\<open>url\<close>, \<open>status\<close> and \<open>headers\<close> of a
  response; \<open>url\<close> and \<open>method\<close> of a request, and no headers), whatever comes before or
  after it, and the handler is no longer registered; if none matches, the promise is
  pending and the handler registered, and when the timer then fires the promise is rejected
  with the timeout error and the handler is no longer registered.
\<close>

theorem network_wait_first_match:
  "waitForResponse u tmo w = network_wait Response u tmo w \<and>
   waitForRequest u tmo w = network_wait Request u tmo w \<and>
   traffic_result Response r0 =
     JObj (mk_obj [(''url'', get_prop r0 ''url''), (''status'', get_prop r0 ''status''),
                   (''headers'', get_prop r0 ''headers'')]) \<and>
   traffic_result Request r0 =
     JObj (mk_obj [(''url'', get_prop r0 ''url''), (''method'', get_prop r0 ''method'')]) \<and>
   (network_ready k w \<and> (\<forall>e \<in> set es. traffic_of k e \<noteq> None) \<longrightarrow>
      (let p = fst (network_wait k u tmo w); w1 = snd (network_wait k u tmo w);
           h = length (closures w); t = length (timers w)
       in h \<in> set (listeners_of (traffic_event k) w1) \<and>
          (case first_match k u es of
             Some r \<Rightarrow>
               pget (run es w1) p = Fulfilled (Some (traffic_result k r)) \<and>
               h \<notin> set (listeners_of (traffic_event k) (run es w1))
           | None \<Rightarrow>
               pget (run es w1) p = Pending \<and>
               h \<in> set (listeners_of (traffic_event k) (run es w1)) \<and>
               pget (run (es @ [Timer t]) w1) p = Rejected (traffic_timeout k) \<and>
               h \<notin> set (listeners_of (traffic_event k) (run (es @ [Timer t]) w1))))) \<and>
   network_ready k1 (run es1 new_session)"
  using network_wait_outcome [of k w es u tmo] network_ready_reachable [of k1 es1]
  by (simp add: waitForResponse_def waitForRequest_def)

theorem network_wait_first_match_witness:
  "network_ready Response armed \<and>
   pget (run burst (snd (waitForResponse (Substring ''/api/data'') None armed)))
        (fst (waitForResponse (Substring ''/api/data'') None armed)) =
     Fulfilled (Some (JObj [(''url'', JStr ''https://example.com/api/data?page=1''),
                            (''status'', JNum 201),
                            (''headers'', JObj [(''content-type'', JStr ''text/html'')])])) \<and>
   listeners_of ''Network.responseReceived''
     (run burst (snd (waitForResponse (Substring ''/api/data'') None armed))) = [0]"
proof -
  have nr: "network_ready Response armed" by code_simp
  have tr: "\<forall>e \<in> set burst. traffic_of Response e \<noteq> None" by code_simp
  have fm: "first_match Response (Substring ''/api/data'') burst =
              Some (JObj [(''url'', JStr ''https://example.com/api/data?page=1''),
                          (''status'', JNum 201),
                          (''headers'', JObj [(''content-type'', JStr ''text/html'')])])"
    by code_simp
  have l: "listeners_of ''Network.responseReceived''
     (run burst (snd (waitForResponse (Substring ''/api/data'') None armed))) = [0]"
    by code_simp
  note T = network_wait_first_match
    [of "Substring ''/api/data''" None armed JNull Response burst Response "[]",
     unfolded Let_def fm]
  have eq: "waitForResponse (Substring ''/api/data'') None armed =
              network_wait Response (Substring ''/api/data'') None armed"
    using T by blast
  have "pget (run burst (snd (network_wait Response (Substring ''/api/data'') None armed)))
          (fst (network_wait Response (Substring ''/api/data'') None armed)) =
        Fulfilled (Some (traffic_result Response
          (JObj [(''url'', JStr ''https://example.com/api/data?page=1''),
                 (''status'', JNum 201),
                 (''headers'', JObj [(''content-type'', JStr ''text/html'')])])))"
    using T nr tr by simp
  then show ?thesis
    using nr l eq by simp
qed

text \<open>
  C7 as stated fails: \<open>waitForRequest\<close> resolves with the url and the method of the
  request, without its headers.
\<close>

theorem waitForRequest_headers_counterexample:
  "pget (run [request_event] (snd (waitForRequest (Substring ''/api'') None armed)))
        (fst (waitForRequest (Substring ''/api'') None armed)) =
     Fulfilled (Some (JObj [(''url'', JStr ''https://example.com/api/data''),
                            (''method'', JStr ''POST'')]))"
  by code_simp

text \<open>
  C4 fails on the code. After \<open>waitForNavigation\<close> with a timeout of 100 ms on a session
  without listeners, the timer fires: the wait is rejected with its timeout error and its
  handler is still registered; after three such waits three handlers are. When the command
  of \<open>goto\<close> is answered with an error, \<open>goto\<close> is rejected and its handler is still
  registered. The handler is removed when the load event comes, and the timeout of
  \<open>waitForResponse\<close> does remove its handler.
\<close>

theorem navigation_timeout_keeps_listener:
  "listeners_of ''Page.loadEventFired'' open_session = [] \<and>
   pget (run [Timer 0] (snd (waitForNavigation \<lparr>timeout = Some 100, waitUntil = None\<rparr> open_session)))
        (fst (waitForNavigation \<lparr>timeout = Some 100, waitUntil = None\<rparr> open_session)) =
     Rejected (NavigationTimeout 100) \<and>
   listeners_of ''Page.loadEventFired''
     (run [Timer 0] (snd (waitForNavigation \<lparr>timeout = Some 100, waitUntil = None\<rparr> open_session))) =
     [0] \<and>
   listeners_of ''Page.loadEventFired''
     (run [CallWaitForNavigation \<lparr>timeout = Some 100, waitUntil = None\<rparr>, Timer 0,
           CallWaitForNavigation \<lparr>timeout = Some 100, waitUntil = None\<rparr>, Timer 1,
           CallWaitForNavigation \<lparr>timeout = Some 100, waitUntil = None\<rparr>, Timer 2]
        open_session) = [0, 1, 2] \<and>
   pget (run [Message (Some (JObj [(''id'', JNum 1),
                                   (''error'', JObj [(''message'', JStr ''Cannot navigate'')])]))]
           (snd (goto ''about:blank'' \<lparr>timeout = None, waitUntil = None\<rparr> open_session)))
        (fst (goto ''about:blank'' \<lparr>timeout = None, waitUntil = None\<rparr> open_session)) =
     Rejected (RemoteError (Some (JStr ''Cannot navigate''))) \<and>
   listeners_of ''Page.loadEventFired''
     (run [Message (Some (JObj [(''id'', JNum 1),
                                (''error'', JObj [(''message'', JStr ''Cannot navigate'')])]))]
        (snd (goto ''about:blank'' \<lparr>timeout = None, waitUntil = None\<rparr> open_session))) = [0] \<and>
   pget (run [load_event] (snd (waitForNavigation \<lparr>timeout = Some 100, waitUntil = None\<rparr> open_session)))
        (fst (waitForNavigation \<lparr>timeout = Some 100, waitUntil = None\<rparr> open_session)) =
     Fulfilled None \<and>
   listeners_of ''Page.loadEventFired''
     (run [load_event] (snd (waitForNavigation \<lparr>timeout = Some 100, waitUntil = None\<rparr> open_session))) =
     [] \<and>
   listeners_of ''Network.responseReceived''
     (run [Timer 0] (snd (waitForResponse (Substring ''/api'') (Some 100) open_session))) = []"
  by code_simp


end
